theory Spec2Isabelle
  imports Main "HOL-Library.AList"
begin

section \<open>JavaScript values\<close>

text \<open>
  Parameters, args and argTypes of \<^verbatim>\<open>story_store.ts\<close> are untyped bags of JavaScript
  values. A value is one of the primitives, an array, a plain object (its own enumerable
  properties in enumeration order) or a function, which the store never inspects and which
  is therefore an opaque reference. Numbers are the integer-valued ones.

  An object is an association list in insertion order. JavaScript enumerates string keys in
  insertion order; keys that are canonical array indices (\<^verbatim>\<open>"0"\<close>, \<^verbatim>\<open>"12"\<close>) and names
  inherited from \<^verbatim>\<open>Object.prototype\<close> are not distinguished here: story ids have the form
  \<^verbatim>\<open>kind--name\<close> and kind names are titles, so the tables of the store never hold such keys.
\<close>

datatype jsval =
    JUndefined
  | JNull
  | JBool bool
  | JNum int
  | JStr string
  | JArr "jsval list"
  | JObj "(string \<times> jsval) list"
  | JFun nat

type_synonym jsobj = "(string \<times> jsval) list"

datatype error = Error string | TypeError

text \<open>Truthiness, as \<^verbatim>\<open>if (v)\<close> and \<^verbatim>\<open>a && b\<close> test it.\<close>

fun truthy :: "jsval \<Rightarrow> bool" where
  "truthy JUndefined = False"
| "truthy JNull = False"
| "truthy (JBool b) = b"
| "truthy (JNum n) = (n \<noteq> 0)"
| "truthy (JStr s) = (s \<noteq> [])"
| "truthy (JArr xs) = True"
| "truthy (JObj kvs) = True"
| "truthy (JFun f) = True"

text \<open>\<^verbatim>\<open>obj[key]\<close> on a plain object: the property, or \<^verbatim>\<open>undefined\<close>.\<close>

definition obj_get :: "jsobj \<Rightarrow> string \<Rightarrow> jsval" where
  "obj_get obj k = (case map_of obj k of None \<Rightarrow> JUndefined | Some v \<Rightarrow> v)"

text \<open>
  \<^verbatim>\<open>v.key\<close> and the destructuring \<^verbatim>\<open>{ key } = v\<close> on any value: a \<^verbatim>\<open>TypeError\<close> on
  \<^verbatim>\<open>undefined\<close> and \<^verbatim>\<open>null\<close>. The store only reads the names \<^verbatim>\<open>defaultValue\<close>,
  \<^verbatim>\<open>storySort\<close> and the like, which no primitive, array or function carries.
\<close>

fun get_prop :: "jsval \<Rightarrow> string \<Rightarrow> error + jsval" where
  "get_prop JUndefined k = Inl TypeError"
| "get_prop JNull k = Inl TypeError"
| "get_prop (JObj kvs) k = Inr (obj_get kvs k)"
| "get_prop v k = Inr JUndefined"

function string_of_nat :: "nat \<Rightarrow> string" where
  "string_of_nat n =
     (if n < 10 then [''0123456789'' ! n]
      else string_of_nat (n div 10) @ [''0123456789'' ! (n mod 10)])"
  by pat_completeness auto
termination
  by (relation "measure id") auto

definition index_entries :: "jsval list \<Rightarrow> jsobj" where
  "index_entries xs = zip (map string_of_nat [0..<length xs]) xs"

text \<open>\<^verbatim>\<open>Object.entries(v)\<close>: it raises on \<^verbatim>\<open>undefined\<close> and \<^verbatim>\<open>null\<close>.\<close>

fun object_entries :: "jsval \<Rightarrow> error + jsobj" where
  "object_entries JUndefined = Inl TypeError"
| "object_entries JNull = Inl TypeError"
| "object_entries (JObj kvs) = Inr kvs"
| "object_entries (JArr xs) = Inr (index_entries xs)"
| "object_entries (JStr s) = Inr (index_entries (map (\<lambda>c. JStr [c]) s))"
| "object_entries v = Inr []"

text \<open>The properties an object spread \<^verbatim>\<open>{...v}\<close> copies: none for \<^verbatim>\<open>undefined\<close> and \<^verbatim>\<open>null\<close>.\<close>

definition spread_props :: "jsval \<Rightarrow> jsobj" where
  "spread_props v = (case object_entries v of Inl e \<Rightarrow> [] | Inr kvs \<Rightarrow> kvs)"

text \<open>
  \<^verbatim>\<open>{...a, ...b}\<close> and \<^verbatim>\<open>Object.assign(a, b)\<close>: the entries of \<open>b\<close> are written into \<open>a\<close> one by
  one; \<^const>\<open>AList.update\<close> is \<^verbatim>\<open>a[k] = v\<close> (an existing key keeps its place, a new one goes last).
\<close>

definition obj_assign :: "('k \<times> 'v) list \<Rightarrow> ('k \<times> 'v) list \<Rightarrow> ('k \<times> 'v) list" where
  "obj_assign a b = fold (\<lambda>(k, v). AList.update k v) b a"

text \<open>\<^verbatim>\<open>const { x = {} } = obj\<close>: the default replaces \<^verbatim>\<open>undefined\<close> only.\<close>

definition or_default :: "jsval \<Rightarrow> jsval \<Rightarrow> jsval" where
  "or_default v d = (if v = JUndefined then d else v)"

section \<open>Library functions and collaborators\<close>

text \<open>
  lodash's \<^verbatim>\<open>pick(obj, ...paths)\<close>: the object of the listed properties that \<open>obj\<close> has, in the
  order of the paths.
\<close>

definition pick :: "jsobj \<Rightarrow> string list \<Rightarrow> jsobj" where
  "pick obj paths =
     concat (map (\<lambda>k. case map_of obj k of None \<Rightarrow> [] | Some v \<Rightarrow> [(k, v)]) paths)"

text \<open>
  Modelled from the spec: \<^verbatim>\<open>combineParameters\<close> of \<^verbatim>\<open>./parameters\<close>, which is not among the
  sources. The layers are applied left to right and later layers take precedence; plain
  nested mappings are merged key by key, recursively; any other value of a later layer
  replaces the earlier one wholesale; an \<^verbatim>\<open>undefined\<close> value or layer never erases a present
  value; no layers give the empty mapping.
\<close>

fun combine_into :: "jsobj \<Rightarrow> jsobj \<Rightarrow> jsobj"
  and merge_value :: "jsval \<Rightarrow> jsval \<Rightarrow> jsval" where
  "combine_into acc [] = acc"
| "combine_into acc ((k, v) # rest) =
     combine_into (if v = JUndefined then acc
                   else AList.update k (merge_value (obj_get acc k) v) acc) rest"
| "merge_value (JObj a) (JObj b) = JObj (combine_into a b)"
| "merge_value existing v = v"

definition combineParameters :: "jsobj option list \<Rightarrow> jsobj" where
  "combineParameters layers =
     fold (\<lambda>p acc. case p of None \<Rightarrow> acc | Some q \<Rightarrow> combine_into acc q) layers []"

text \<open>
  The package \<^verbatim>\<open>stable\<close>: \<^verbatim>\<open>stable.inplace(arr, comp)\<close> sorts with a stable merge sort, an
  element going before another when \<^verbatim>\<open>comp\<close> is at most 0. For a comparator that is a total
  preorder every stable sort returns the same list; the model is the stable insertion sort.
\<close>

fun insert_sorted :: "('a \<Rightarrow> 'a \<Rightarrow> int) \<Rightarrow> 'a \<Rightarrow> 'a list \<Rightarrow> 'a list" where
  "insert_sorted cmp x [] = [x]"
| "insert_sorted cmp x (y # ys) =
     (if cmp x y \<le> 0 then x # y # ys else y # insert_sorted cmp x ys)"

definition stable_inplace :: "('a \<Rightarrow> 'a \<Rightarrow> int) \<Rightarrow> 'a list \<Rightarrow> 'a list" where
  "stable_inplace cmp xs = foldr (insert_sorted cmp) xs []"

section \<open>The data model of the store\<close>

type_synonym StoryId = string

text \<open>
  Decorators and story functions are opaque to the store: references. \<open>ref\<close> is the address
  of an object the store allocates for a story: its \<^verbatim>\<open>HooksContext\<close> and its closures.
\<close>

type_synonym DecoratorFunction = nat
type_synonym ref = nat

text \<open>\<^verbatim>\<open>finalStoryFn\<close>, the closure over the original story function that is handed to the composer.\<close>

datatype LegacyStoryFn = FinalStoryFn nat

record StoryOptions =
  includeDocsOnly :: "bool option"

record StoryMetadata =
  md_parameters :: "jsobj option"
  md_decorators :: "DecoratorFunction list"

record GlobalMetadata =
  global_parameters :: jsobj
  global_decorators :: "DecoratorFunction list"

record KindMetadata =
  kind_order :: int
  kind_parameters :: jsobj
  kind_decorators :: "DecoratorFunction list"

record AddStoryArgs =
  arg_id :: StoryId
  arg_kind :: string
  arg_name :: string
  arg_storyFn :: nat
  arg_parameters :: "jsobj option"
  arg_decorators :: "DecoratorFunction list option"

text \<open>
  An entry of \<^verbatim>\<open>_stories\<close>. \<open>hooks\<close> is the address of the entry's \<^verbatim>\<open>HooksContext\<close>,
  \<open>getDecorated\<close> the address of its memoized closure (absent in an entry that was not built
  by \<^verbatim>\<open>addStory\<close>), \<open>getOriginal\<close> the story function it returns, \<open>storyFn\<close> the closure that
  renders the story: it closes over the identification and the entry's objects. One address
  stands for the objects that one call of \<^verbatim>\<open>addStory\<close> allocates.
\<close>

datatype StoryFnClosure =
  StoryFn (sf_id: StoryId) (sf_kind: string) (sf_name: string) (sf_ref: ref)

record StoreItem =
  item_id :: StoryId
  item_kind :: string
  item_name :: string
  item_story :: string
  hooks :: ref
  getDecorated :: "ref option"
  getOriginal :: nat
  storyFn :: StoryFnClosure
  item_parameters :: jsobj
  item_args :: jsobj

text \<open>\<^verbatim>\<open>{ ...data, globalArgs }\<close>.\<close>

record PublishedStoreItem =
  pub_item :: StoreItem
  pub_globalArgs :: jsobj

text \<open>What \<^verbatim>\<open>toExtracted\<close> leaves of an entry: no function, no hooks.\<close>

record Extracted =
  ex_id :: StoryId
  ex_kind :: string
  ex_name :: string
  ex_story :: string
  ex_parameters :: jsobj
  ex_args :: jsobj

datatype event =
    SET_STORIES "(StoryId \<times> Extracted) list"
  | RENDER_CURRENT_STORY
  | GLOBAL_ARGS_UPDATED jsobj

text \<open>
  The state of a memoized \<^verbatim>\<open>getDecorated\<close> closure, \<^verbatim>\<open>memoize(1)(() => applyDecorators(finalStoryFn,
  decorators))\<close>: what it closes over, its one cache slot, and (for the proofs) the arguments of
  every call of \<^verbatim>\<open>applyDecorators\<close> it has made.
\<close>

record 'c memo =
  memo_fn :: LegacyStoryFn
  memo_decorators :: "DecoratorFunction list"
  memo_apply :: "LegacyStoryFn \<Rightarrow> DecoratorFunction list \<Rightarrow> 'c"
  memo_cache :: "'c option"
  memo_calls :: "(LegacyStoryFn \<times> DecoratorFunction list) list"

text \<open>
  The store. \<open>'c\<close> is what the composer returns. Besides the fields of the class
  (\<^verbatim>\<open>_error\<close>, \<^verbatim>\<open>_selection\<close> and \<^verbatim>\<open>_revision\<close>, which no operation below reads or writes,
  are left out) the state holds the objects the store allocates: \<open>heap_next\<close> is the next
  free address, \<open>memos\<close> the \<^verbatim>\<open>getDecorated\<close> closures, \<open>cleaned\<close> the trace of the calls of
  \<^verbatim>\<open>hooks.clean()\<close>, \<open>emitted\<close> the events sent on the channel.
\<close>

record 'c StoryStore =
  channel :: bool
  configuring :: bool
  globalArgs :: jsobj
  globalMetadata :: GlobalMetadata
  kinds :: "(string \<times> KindMetadata) list"
  stories :: "(StoryId \<times> StoreItem) list"
  parameterEnhancers :: "(jsobj \<Rightarrow> jsobj) list"
  heap_next :: ref
  memos :: "ref \<Rightarrow> 'c memo option"
  cleaned :: "ref list"
  emitted :: "event list"

text \<open>The constructor: configuring until told otherwise.\<close>

definition new_store :: "bool \<Rightarrow> 'c StoryStore" where
  "new_store ch =
     \<lparr> channel = ch, configuring = True, globalArgs = [],
       globalMetadata = \<lparr> global_parameters = [], global_decorators = [] \<rparr>,
       kinds = [], stories = [], parameterEnhancers = [],
       heap_next = 0, memos = (\<lambda>r. None), cleaned = [], emitted = [] \<rparr>"

section \<open>Reading the store\<close>

definition isStoryDocsOnly :: "jsobj option \<Rightarrow> jsval" where
  "isStoryDocsOnly parameters =
     (case parameters of None \<Rightarrow> JUndefined | Some p \<Rightarrow> obj_get p ''docsOnly'')"

text \<open>The options default to \<^verbatim>\<open>{ includeDocsOnly: false }\<close>.\<close>

definition includeStory :: "StoreItem \<Rightarrow> StoryOptions option \<Rightarrow> bool" where
  "includeStory story options =
     (if (case options of None \<Rightarrow> False | Some opts \<Rightarrow> includeDocsOnly opts = Some True)
      then True
      else \<not> truthy (isStoryDocsOnly (Some (item_parameters story))))"

definition toExtracted :: "StoreItem \<Rightarrow> Extracted" where
  "toExtracted v =
     \<lparr> ex_id = item_id v, ex_kind = item_kind v, ex_name = item_name v,
       ex_story = item_story v, ex_parameters = item_parameters v, ex_args = item_args v \<rparr>"

text \<open>\<^verbatim>\<open>try { ... } catch (e) { ... }\<close>.\<close>

definition try_catch :: "error + 'a \<Rightarrow> (error \<Rightarrow> error + 'a) \<Rightarrow> error + 'a" where
  "try_catch body handler = (case body of Inl e \<Rightarrow> handler e | Inr r \<Rightarrow> Inr r)"

text \<open>The body of the \<^verbatim>\<open>try\<close> of \<^verbatim>\<open>fromId\<close>; \<open>None\<close> is \<^verbatim>\<open>null\<close>.\<close>

definition fromId_try :: "'c StoryStore \<Rightarrow> StoryId \<Rightarrow> error + PublishedStoreItem option" where
  "fromId_try s storyId =
     (case map_of (stories s) storyId of
        None \<Rightarrow> Inr None
      | Some data \<Rightarrow>
          if getDecorated data = None then Inr None
          else Inr (Some \<lparr> pub_item = data, pub_globalArgs = globalArgs s \<rparr>))"

definition fromId :: "'c StoryStore \<Rightarrow> StoryId \<Rightarrow> error + PublishedStoreItem option" where
  "fromId s storyId = try_catch (fromId_try s storyId) (\<lambda>e. Inr None)"

fun sequence_err :: "(error + 'a) list \<Rightarrow> error + 'a list" where
  "sequence_err [] = Inr []"
| "sequence_err (x # xs) =
     (case x of
        Inl e \<Rightarrow> Inl e
      | Inr v \<Rightarrow> (case sequence_err xs of Inl e \<Rightarrow> Inl e | Inr vs \<Rightarrow> Inr (v # vs)))"

definition raw :: "'c StoryStore \<Rightarrow> StoryOptions option \<Rightarrow> error + PublishedStoreItem option list" where
  "raw s options =
     sequence_err
       (map (\<lambda>i. fromId s (item_id i))
          (filter (\<lambda>i. includeStory i options)
             (filter (\<lambda>i. getDecorated i \<noteq> None) (map snd (stories s)))))"

text \<open>\<^verbatim>\<open>.filter((story) => story.kind === kind)\<close>: reading \<^verbatim>\<open>kind\<close> of \<^verbatim>\<open>null\<close> raises.\<close>

fun filter_kind :: "string \<Rightarrow> PublishedStoreItem option list \<Rightarrow> error + PublishedStoreItem list" where
  "filter_kind kind [] = Inr []"
| "filter_kind kind (None # ps) = Inl TypeError"
| "filter_kind kind (Some p # ps) =
     (case filter_kind kind ps of
        Inl e \<Rightarrow> Inl e
      | Inr r \<Rightarrow> Inr (if item_kind (pub_item p) = kind then p # r else r))"

definition getStoriesForKind :: "'c StoryStore \<Rightarrow> string \<Rightarrow> error + PublishedStoreItem list" where
  "getStoriesForKind s kind =
     (case raw s None of Inl e \<Rightarrow> Inl e | Inr ps \<Rightarrow> filter_kind kind ps)"

text \<open>
  \<^verbatim>\<open>this._kinds[k].order\<close> inside a comparator. Reading \<^verbatim>\<open>order\<close> of a kind that is not in
  \<^verbatim>\<open>_kinds\<close> raises; a sort of two or more elements compares every element at least once, so
  the sorts below raise exactly when they have two or more elements and one is of such a kind,
  and \<open>order_of\<close> is only read where the kind is there.
\<close>

definition order_of :: "'c StoryStore \<Rightarrow> string \<Rightarrow> int" where
  "order_of s kind = (case map_of (kinds s) kind of None \<Rightarrow> 0 | Some m \<Rightarrow> kind_order m)"

definition unknown_kind :: "'c StoryStore \<Rightarrow> string \<Rightarrow> bool" where
  "unknown_kind s kind = (map_of (kinds s) kind = None)"

text \<open>
  The collaborators of \<^verbatim>\<open>extract\<close>: \<open>storySort\<close> is the module \<^verbatim>\<open>./storySort\<close>, which compiles
  a configuration into a comparator; \<open>call_comparator\<close> is what a function value does when it
  is called as a comparator.
\<close>

record sort_env =
  storySort :: "jsval \<Rightarrow> (StoryId \<times> StoreItem) \<Rightarrow> (StoryId \<times> StoreItem) \<Rightarrow> int"
  call_comparator :: "nat \<Rightarrow> (StoryId \<times> StoreItem) \<Rightarrow> (StoryId \<times> StoreItem) \<Rightarrow> int"

text \<open>The first key of \<^verbatim>\<open>_stories\<close> whose story has truthy \<^verbatim>\<open>parameters.options\<close>.\<close>

definition options_index :: "'c StoryStore \<Rightarrow> StoryId option" where
  "options_index s =
     find (\<lambda>key. case map_of (stories s) key of
                   None \<Rightarrow> False
                 | Some v \<Rightarrow> truthy (obj_get (item_parameters v) ''options''))
       (map fst (stories s))"

text \<open>
  \<^verbatim>\<open>index && this._stories[index].parameters.options.storySort\<close>: the value that decides
  between the custom and the default sort (the empty id is falsy).
\<close>

definition storySort_parameter :: "'c StoryStore \<Rightarrow> error + jsval" where
  "storySort_parameter s =
     (case options_index s of
        None \<Rightarrow> Inr JUndefined
      | Some index \<Rightarrow>
          if index = [] then Inr (JStr [])
          else (case map_of (stories s) index of
                  None \<Rightarrow> Inl TypeError
                | Some v \<Rightarrow> get_prop (obj_get (item_parameters v) ''options'') ''storySort''))"

definition sort_stories :: "sort_env \<Rightarrow> 'c StoryStore \<Rightarrow> error + (StoryId \<times> StoreItem) list" where
  "sort_stories env s =
     (if stories s = [] then Inr []
      else case storySort_parameter s of
        Inl e \<Rightarrow> Inl e
      | Inr storySortParameter \<Rightarrow>
          if truthy storySortParameter then
            Inr (stable_inplace
                   (case storySortParameter of
                      JFun f \<Rightarrow> call_comparator env f
                    | _ \<Rightarrow> storySort env storySortParameter)
                   (stories s))
          else if 2 \<le> length (stories s) \<and> list_ex (\<lambda>(k, v). unknown_kind s (item_kind v)) (stories s)
          then Inl TypeError
          else Inr (stable_inplace
                      (\<lambda>s1 s2. order_of s (item_kind (snd s1)) - order_of s (item_kind (snd s2)))
                      (stories s)))"

definition extract' :: "sort_env \<Rightarrow> 'c StoryStore \<Rightarrow> StoryOptions option \<Rightarrow> error + (StoryId \<times> Extracted) list" where
  "extract' env s options =
     (case sort_stories env s of
        Inl e \<Rightarrow> Inl e
      | Inr sorted_stories \<Rightarrow>
          Inr (fold (\<lambda>(k, v) a. if includeStory v options then AList.update k (toExtracted v) a else a)
                 sorted_stories []))"

definition getStoriesForManager :: "sort_env \<Rightarrow> 'c StoryStore \<Rightarrow> error + (StoryId \<times> Extracted) list" where
  "getStoriesForManager env s = extract' env s (Some \<lparr> includeDocsOnly = Some True \<rparr>)"





section \<open>The configuring phase and the metadata registry\<close>

definition startConfiguring :: "'c StoryStore \<Rightarrow> 'c StoryStore" where
  "startConfiguring s = s\<lparr> configuring := True \<rparr>"

definition ensureKind :: "string \<Rightarrow> 'c StoryStore \<Rightarrow> 'c StoryStore" where
  "ensureKind kind s =
     (if map_of (kinds s) kind = None
      then s\<lparr> kinds := kinds s @
                 [(kind, \<lparr> kind_order = int (length (kinds s)),
                           kind_parameters = [], kind_decorators = [] \<rparr>)] \<rparr>
      else s)"

text \<open>
  \<^verbatim>\<open>addGlobalMetadata\<close> and \<^verbatim>\<open>addKindMetadata\<close> take the metadata only: they have no
  \<^verbatim>\<open>allowUnsafe\<close> option and do not read \<^verbatim>\<open>_configuring\<close>. The warnings they log are not part
  of the state.
\<close>

definition addGlobalMetadata :: "StoryMetadata \<Rightarrow> 'c StoryStore \<Rightarrow> (error + unit) \<times> 'c StoryStore" where
  "addGlobalMetadata md s =
     (Inr (),
      s\<lparr> globalMetadata :=
           \<lparr> global_parameters =
               combineParameters [Some (global_parameters (globalMetadata s)), md_parameters md],
             global_decorators = global_decorators (globalMetadata s) @ md_decorators md \<rparr> \<rparr>)"

definition clearGlobalDecorators :: "'c StoryStore \<Rightarrow> 'c StoryStore" where
  "clearGlobalDecorators s =
     s\<lparr> globalMetadata := (globalMetadata s)\<lparr> global_decorators := [] \<rparr> \<rparr>"

definition addKindMetadata :: "string \<Rightarrow> StoryMetadata \<Rightarrow> 'c StoryStore \<Rightarrow> (error + unit) \<times> 'c StoryStore" where
  "addKindMetadata kind md s =
     (let s1 = ensureKind kind s
      in (Inr (),
          s1\<lparr> kinds :=
                AList.map_entry kind
                  (\<lambda>m. m\<lparr> kind_parameters := combineParameters [Some (kind_parameters m), md_parameters md],
                          kind_decorators := kind_decorators m @ md_decorators md \<rparr>)
                  (kinds s1) \<rparr>))"

definition addParameterEnhancer :: "(jsobj \<Rightarrow> jsobj) \<Rightarrow> 'c StoryStore \<Rightarrow> (error + unit) \<times> 'c StoryStore" where
  "addParameterEnhancer parameterEnhancer s =
     (if 0 < length (stories s)
      then (Inl (Error ''Cannot add a parameter enhancer to the store after a story has been added.''), s)
      else (Inr (), s\<lparr> parameterEnhancers := parameterEnhancers s @ [parameterEnhancer] \<rparr>))"

section \<open>The story table\<close>

text \<open>
  The reducer that \<^verbatim>\<open>addStory\<close> and \<^verbatim>\<open>finishConfiguring\<close> both run over the entries of the
  argTypes: \<^verbatim>\<open>(acc, [arg, { defaultValue }]) => { if (defaultValue) acc[arg] = defaultValue; return acc; }\<close>.
\<close>

fun reduce_defaults :: "jsobj \<Rightarrow> jsobj \<Rightarrow> error + jsobj" where
  "reduce_defaults [] acc = Inr acc"
| "reduce_defaults ((arg, t) # rest) acc =
     (case get_prop t ''defaultValue'' of
        Inl e \<Rightarrow> Inl e
      | Inr defaultValue \<Rightarrow>
          reduce_defaults rest (if truthy defaultValue then AList.update arg defaultValue acc else acc))"

definition defaults_of :: "jsval \<Rightarrow> error + jsobj" where
  "defaults_of argTypes =
     (case object_entries argTypes of Inl e \<Rightarrow> Inl e | Inr entries \<Rightarrow> reduce_defaults entries [])"

text \<open>
  A call of the memoized \<^verbatim>\<open>getDecorated\<close> closure at address \<open>r\<close>: the first call runs
  \<^verbatim>\<open>applyDecorators\<close> and fills the cache, later calls return the cached value.
\<close>

definition getDecorated_call :: "ref \<Rightarrow> 'c StoryStore \<Rightarrow> (error + 'c) \<times> 'c StoryStore" where
  "getDecorated_call r s =
     (case memos s r of
        None \<Rightarrow> (Inl TypeError, s)
      | Some m \<Rightarrow>
          (case memo_cache m of
             Some decorated \<Rightarrow> (Inr decorated, s)
           | None \<Rightarrow>
               (let decorated = memo_apply m (memo_fn m) (memo_decorators m)
                in (Inr decorated,
                    s\<lparr> memos := (memos s)(r \<mapsto>
                          m\<lparr> memo_cache := Some decorated,
                             memo_calls := memo_calls m @ [(memo_fn m, memo_decorators m)] \<rparr>) \<rparr>))))"

text \<open>
  \<^verbatim>\<open>this.getFullParameters(id)\<close>, which the stored \<^verbatim>\<open>storyFn\<close> evaluates. The class declares
  no member of that name (the method that combines the parameters is \<^verbatim>\<open>getAllParameters\<close>),
  it extends no class and nothing assigns the property: the read gives \<^verbatim>\<open>undefined\<close> and the
  call raises a \<^verbatim>\<open>TypeError\<close>.
\<close>

definition getFullParameters :: "'c StoryStore \<Rightarrow> StoryId \<Rightarrow> error + jsobj" where
  "getFullParameters s storyId = Inl TypeError"

text \<open>The context that \<^verbatim>\<open>storyFn\<close> builds for the composed render function.\<close>

record StoryContext =
  ctx_spread :: jsobj
  ctx_parameters :: jsobj
  ctx_hooks :: ref
  ctx_args :: jsobj
  ctx_globalArgs :: jsobj

text \<open>
  A call \<^verbatim>\<open>storyFn(runtimeContext)\<close> of the closure stored in an entry. The callee
  \<^verbatim>\<open>getDecorated()\<close> is evaluated first, then the properties of the argument in the order they
  are written. The result is the call of the composed function that it makes.
\<close>

definition storyFn_call ::
  "StoryFnClosure \<Rightarrow> jsobj \<Rightarrow> 'c StoryStore \<Rightarrow> (error + 'c \<times> StoryContext) \<times> 'c StoryStore" where
  "storyFn_call cl runtimeContext s =
     (case getDecorated_call (sf_ref cl) s of
        (Inl e, s1) \<Rightarrow> (Inl e, s1)
      | (Inr decorated, s1) \<Rightarrow>
          (case getFullParameters s1 (sf_id cl) of
             Inl e \<Rightarrow> (Inl e, s1)
           | Inr parameters \<Rightarrow>
               (case map_of (stories s1) (sf_id cl) of
                  None \<Rightarrow> (Inl TypeError, s1)
                | Some data \<Rightarrow>
                    (Inr (decorated,
                          \<lparr> ctx_spread =
                              obj_assign
                                [(''id'', JStr (sf_id cl)), (''kind'', JStr (sf_kind cl)),
                                 (''name'', JStr (sf_name cl)), (''story'', JStr (sf_name cl))]
                                runtimeContext,
                            ctx_parameters = parameters,
                            ctx_hooks = sf_ref cl,
                            ctx_args = item_args data,
                            ctx_globalArgs = globalArgs s1 \<rparr>),
                     s1))))"

text \<open>
  \<^verbatim>\<open>addStory\<close>. \<open>allowUnsafe\<close> is \<open>False\<close> when the option is left out. The state it returns
  with an error is the state at the \<^verbatim>\<open>throw\<close>.
\<close>

definition addStory ::
  "AddStoryArgs \<Rightarrow> (LegacyStoryFn \<Rightarrow> DecoratorFunction list \<Rightarrow> 'c) \<Rightarrow> bool \<Rightarrow> 'c StoryStore
     \<Rightarrow> (error + unit) \<times> 'c StoryStore" where
  "addStory a applyDecorators allowUnsafe s =
     (if \<not> configuring s \<and> \<not> allowUnsafe
      then (Inl (Error ''Cannot add a story when not configuring''), s)
      else
        let storyParameters = (case arg_parameters a of None \<Rightarrow> [] | Some p \<Rightarrow> p);
            storyDecorators = (case arg_decorators a of None \<Rightarrow> [] | Some d \<Rightarrow> d);
            s1 = ensureKind (arg_kind a) s
        in case map_of (kinds s1) (arg_kind a) of
             None \<Rightarrow> (Inl TypeError, s1)
           | Some kindMetadata \<Rightarrow>
               let decorators =
                     storyDecorators @ kind_decorators kindMetadata
                       @ global_decorators (globalMetadata s1);
                   r = heap_next s1;
                   s2 = s1\<lparr> heap_next := Suc r,
                           memos := (memos s1)(r \<mapsto>
                             \<lparr> memo_fn = FinalStoryFn (arg_storyFn a),
                               memo_decorators = decorators,
                               memo_apply = applyDecorators,
                               memo_cache = None, memo_calls = [] \<rparr>) \<rparr>;
                   argParametersBeforeEnhancement =
                     combineParameters
                       [Some (pick (global_parameters (globalMetadata s2)) [''args'', ''argTypes'']),
                        Some (pick (kind_parameters kindMetadata) [''args'', ''argTypes'']),
                        Some (pick storyParameters [''args'', ''argTypes''])];
                   enhanced =
                     fold (\<lambda>enhancer accumlatedParameters.
                             obj_assign accumlatedParameters (enhancer accumlatedParameters))
                       (parameterEnhancers s2) argParametersBeforeEnhancement;
                   args = or_default (obj_get enhanced ''args'') (JObj []);
                   argTypes = or_default (obj_get enhanced ''argTypes'') (JObj [])
               in case defaults_of argTypes of
                    Inl e \<Rightarrow> (Inl e, s2)
                  | Inr defaultArgs \<Rightarrow>
                      (Inr (),
                       s2\<lparr> stories :=
                             AList.update (arg_id a)
                               \<lparr> item_id = arg_id a, item_kind = arg_kind a,
                                 item_name = arg_name a, item_story = arg_name a,
                                 hooks = r, getDecorated = Some r,
                                 getOriginal = arg_storyFn a,
                                 storyFn = StoryFn (arg_id a) (arg_kind a) (arg_name a) r,
                                 item_parameters = storyParameters,
                                 item_args = obj_assign defaultArgs (spread_props args) \<rparr>
                               (stories s2) \<rparr>))"

definition remove :: "StoryId \<Rightarrow> bool \<Rightarrow> 'c StoryStore \<Rightarrow> (error + unit) \<times> 'c StoryStore" where
  "remove storyId allowUnsafe s =
     (if \<not> configuring s \<and> \<not> allowUnsafe
      then (Inl (Error ''Cannot remove a story when not configuring''), s)
      else
        let story = map_of (stories s) storyId;
            s1 = s\<lparr> stories := AList.delete storyId (stories s) \<rparr>
        in (Inr (),
            case story of
              None \<Rightarrow> s1
            | Some data \<Rightarrow> s1\<lparr> cleaned := cleaned s1 @ [hooks data] \<rparr>))"

definition cleanHooks :: "StoryId \<Rightarrow> 'c StoryStore \<Rightarrow> 'c StoryStore" where
  "cleanHooks storyId s =
     (case map_of (stories s) storyId of
        None \<Rightarrow> s
      | Some data \<Rightarrow> s\<lparr> cleaned := cleaned s @ [hooks data] \<rparr>)"

definition cleanHooksForKind :: "string \<Rightarrow> 'c StoryStore \<Rightarrow> (error + unit) \<times> 'c StoryStore" where
  "cleanHooksForKind kind s =
     (case getStoriesForKind s kind of
        Inl e \<Rightarrow> (Inl e, s)
      | Inr found \<Rightarrow> (Inr (), fold (\<lambda>story. cleanHooks (item_id (pub_item story))) found s))"

definition removeStoryKind :: "string \<Rightarrow> bool \<Rightarrow> 'c StoryStore \<Rightarrow> (error + unit) \<times> 'c StoryStore" where
  "removeStoryKind kind allowUnsafe s =
     (if \<not> configuring s \<and> \<not> allowUnsafe
      then (Inl (Error ''Cannot remove a kind when not configuring''), s)
      else if map_of (kinds s) kind = None then (Inr (), s)
      else
        let s1 = s\<lparr> kinds :=
                     AList.map_entry kind
                       (\<lambda>m. m\<lparr> kind_parameters := [], kind_decorators := [] \<rparr>) (kinds s) \<rparr>
        in case cleanHooksForKind kind s1 of
             (Inl e, s2) \<Rightarrow> (Inl e, s2)
           | (Inr u, s2) \<Rightarrow>
               (Inr (),
                s2\<lparr> stories :=
                      fold (\<lambda>(storyId, story) acc.
                              if item_kind story \<noteq> kind then AList.update storyId story acc else acc)
                        (stories s2) [] \<rparr>))"

section \<open>The end of the configuring phase\<close>

definition pushToManager :: "sort_env \<Rightarrow> 'c StoryStore \<Rightarrow> (error + unit) \<times> 'c StoryStore" where
  "pushToManager env s =
     (if channel s
      then (case getStoriesForManager env s of
              Inl e \<Rightarrow> (Inl e, s)
            | Inr extracted \<Rightarrow> (Inr (), s\<lparr> emitted := emitted s @ [SET_STORIES extracted] \<rparr>))
      else (Inr (), s))"

text \<open>
  The reducer of the reconciliation:
  \<^verbatim>\<open>(acc, [key, previousValue]) => { if (acc[key]) acc[key] = previousValue; return acc; }\<close>.
\<close>

definition reconcile :: "jsobj \<Rightarrow> jsobj \<Rightarrow> jsobj" where
  "reconcile previous base =
     fold (\<lambda>(key, previousValue) acc.
             if truthy (obj_get acc key) then AList.update key previousValue acc else acc)
       previous base"

definition finishConfiguring :: "sort_env \<Rightarrow> 'c StoryStore \<Rightarrow> (error + unit) \<times> 'c StoryStore" where
  "finishConfiguring env s =
     (case pushToManager env (s\<lparr> configuring := False \<rparr>) of
        (Inl e, s1) \<Rightarrow> (Inl e, s1)
      | (Inr u, s1) \<Rightarrow>
          let s2 = (if channel s1 then s1\<lparr> emitted := emitted s1 @ [RENDER_CURRENT_STORY] \<rparr> else s1)
          in case map fst (stories s2) of
               [] \<Rightarrow> (Inr (), s2)
             | first # others \<Rightarrow>
                 (case fromId s2 first of
                    Inl e \<Rightarrow> (Inl e, s2)
                  | Inr None \<Rightarrow> (Inl TypeError, s2)
                  | Inr (Some story) \<Rightarrow>
                      let initialGlobalArgs = obj_get (item_parameters (pub_item story)) ''globalArgs'';
                          globalArgTypes = obj_get (item_parameters (pub_item story)) ''globalArgTypes''
                      in case (if truthy globalArgTypes then defaults_of globalArgTypes else Inr []) of
                           Inl e \<Rightarrow> (Inl e, s2)
                         | Inr defaultGlobalArgs \<Rightarrow>
                             (Inr (),
                              s2\<lparr> globalArgs :=
                                    reconcile (globalArgs s2)
                                      (obj_assign defaultGlobalArgs (spread_props initialGlobalArgs)) \<rparr>)))"

section \<open>Argument updates\<close>

text \<open>\<^verbatim>\<open>updateGlobalArgs\<close> emits without testing the channel: with none it raises after the update.\<close>

definition updateGlobalArgs :: "jsobj \<Rightarrow> 'c StoryStore \<Rightarrow> (error + unit) \<times> 'c StoryStore" where
  "updateGlobalArgs newGlobalArgs s =
     (let s1 = s\<lparr> globalArgs := obj_assign (globalArgs s) newGlobalArgs \<rparr>
      in if channel s1
         then (Inr (), s1\<lparr> emitted := emitted s1 @ [GLOBAL_ARGS_UPDATED (globalArgs s1)] \<rparr>)
         else (Inl TypeError, s1))"

section \<open>Clients and reachable states\<close>

text \<open>
  A client calls the operations of the store in any order; a call that raises leaves the
  state as it is at the \<^verbatim>\<open>throw\<close> and the client goes on. \<open>GetDecorated\<close> and \<open>CallStoryFn\<close> are
  calls of the closures that the entries hold.
\<close>

datatype 'c operation =
    AddStory AddStoryArgs "LegacyStoryFn \<Rightarrow> DecoratorFunction list \<Rightarrow> 'c" bool
  | Remove StoryId bool
  | RemoveStoryKind string bool
  | AddKindMetadata string StoryMetadata
  | AddGlobalMetadata StoryMetadata
  | ClearGlobalDecorators
  | AddParameterEnhancer "jsobj \<Rightarrow> jsobj"
  | StartConfiguring
  | FinishConfiguring
  | UpdateGlobalArgs jsobj
  | CleanHooks StoryId
  | CleanHooksForKind string
  | GetDecorated ref
  | CallStoryFn StoryFnClosure jsobj

fun exec :: "sort_env \<Rightarrow> 'c operation \<Rightarrow> 'c StoryStore \<Rightarrow> 'c StoryStore" where
  "exec env (AddStory a applyDecorators allowUnsafe) s = snd (addStory a applyDecorators allowUnsafe s)"
| "exec env (Remove storyId allowUnsafe) s = snd (remove storyId allowUnsafe s)"
| "exec env (RemoveStoryKind kind allowUnsafe) s = snd (removeStoryKind kind allowUnsafe s)"
| "exec env (AddKindMetadata kind md) s = snd (addKindMetadata kind md s)"
| "exec env (AddGlobalMetadata md) s = snd (addGlobalMetadata md s)"
| "exec env ClearGlobalDecorators s = clearGlobalDecorators s"
| "exec env (AddParameterEnhancer enhancer) s = snd (addParameterEnhancer enhancer s)"
| "exec env StartConfiguring s = startConfiguring s"
| "exec env FinishConfiguring s = snd (finishConfiguring env s)"
| "exec env (UpdateGlobalArgs newGlobalArgs) s = snd (updateGlobalArgs newGlobalArgs s)"
| "exec env (CleanHooks storyId) s = cleanHooks storyId s"
| "exec env (CleanHooksForKind kind) s = snd (cleanHooksForKind kind s)"
| "exec env (GetDecorated r) s = snd (getDecorated_call r s)"
| "exec env (CallStoryFn cl runtimeContext) s = snd (storyFn_call cl runtimeContext s)"

definition run :: "sort_env \<Rightarrow> 'c operation list \<Rightarrow> 'c StoryStore \<Rightarrow> 'c StoryStore" where
  "run env ops s = fold (exec env) ops s"

text \<open>
  What holds of the tables in every state that a client can reach from a new store: the keys
  of \<^verbatim>\<open>_stories\<close> are distinct, an entry is stored under its own id, its closure is the one
  made for that id, its kind is in \<^verbatim>\<open>_kinds\<close>, and its \<^verbatim>\<open>HooksContext\<close> is an allocated object
  that no other entry holds.
\<close>

definition entry_ok :: "'c StoryStore \<Rightarrow> StoryId \<times> StoreItem \<Rightarrow> bool" where
  "entry_ok s e =
     (item_id (snd e) = fst e \<and> sf_id (storyFn (snd e)) = fst e
      \<and> \<not> unknown_kind s (item_kind (snd e)) \<and> hooks (snd e) < heap_next s)"

definition store_inv :: "'c StoryStore \<Rightarrow> bool" where
  "store_inv s =
     (distinct (map fst (stories s)) \<and> list_all (entry_ok s) (stories s)
      \<and> distinct (map (\<lambda>e. hooks (snd e)) (stories s)))"



text \<open>
  What a \<^verbatim>\<open>getDecorated\<close> closure over \<open>fn\<close>, \<open>decorators\<close> and the composer \<open>ap\<close> can be: not
  called yet, or called, with the one composition in its cache.
\<close>

definition memo_state ::
  "LegacyStoryFn \<Rightarrow> DecoratorFunction list \<Rightarrow> (LegacyStoryFn \<Rightarrow> DecoratorFunction list \<Rightarrow> 'c)
     \<Rightarrow> 'c memo \<Rightarrow> bool" where
  "memo_state fn decorators ap m =
     (memo_fn m = fn \<and> memo_decorators m = decorators \<and> memo_apply m = ap
      \<and> ((memo_cache m = None \<and> memo_calls m = [])
         \<or> (memo_cache m = Some (ap fn decorators) \<and> memo_calls m = [(fn, decorators)])))"

text \<open>The decorators a story is composed with: its own, its kind's, the global ones.\<close>

definition decorators_for :: "'c StoryStore \<Rightarrow> AddStoryArgs \<Rightarrow> DecoratorFunction list" where
  "decorators_for s a =
     (case arg_decorators a of None \<Rightarrow> [] | Some d \<Rightarrow> d)
     @ (case map_of (kinds s) (arg_kind a) of None \<Rightarrow> [] | Some m \<Rightarrow> kind_decorators m)
     @ global_decorators (globalMetadata s)"

section \<open>Sample inputs\<close>

text \<open>A composer that returns what it was given, and collaborators that compare nothing.\<close>

type_synonym composed = "LegacyStoryFn \<times> DecoratorFunction list"

definition compose_pair :: "LegacyStoryFn \<Rightarrow> DecoratorFunction list \<Rightarrow> composed" where
  "compose_pair fn ds = (fn, ds)"

definition plain_env :: sort_env where
  "plain_env = \<lparr> storySort = (\<lambda>p s1 s2. 0), call_comparator = (\<lambda>f s1 s2. 0) \<rparr>"

definition story_with :: "StoryId \<Rightarrow> string \<Rightarrow> string \<Rightarrow> jsobj \<Rightarrow> AddStoryArgs" where
  "story_with i k n ps =
     \<lparr> arg_id = i, arg_kind = k, arg_name = n, arg_storyFn = 0,
       arg_parameters = Some ps, arg_decorators = None \<rparr>"

definition story_plain :: AddStoryArgs where
  "story_plain = story_with ''a--b'' ''a'' ''b'' []"







definition plain_entry :: "ref \<Rightarrow> StoreItem" where
  "plain_entry r =
     \<lparr> item_id = ''a--b'', item_kind = ''a'', item_name = ''b'', item_story = ''b'',
       hooks = r, getDecorated = Some r, getOriginal = 0,
       storyFn = StoryFn ''a--b'' ''a'' ''b'' r,
       item_parameters = [], item_args = [] \<rparr>"

text \<open>
  What one call of an operation can do to the tables, stated once for all of them. A
  \<^verbatim>\<open>getDecorated\<close> closure is left alone or makes its one composition (\<open>memo_step\<close>). The
  next free address does not go down, a kind that is known stays known with its order, the
  calls of \<^verbatim>\<open>clean\<close> that are added are for objects that entries of the table hold, an entry of
  the new table is an old one or holds the object just allocated, and the new table is the
  old one with entries filtered out or with one entry written by \<^verbatim>\<open>addStory\<close> (\<open>grows\<close>).
\<close>

definition memo_step :: "'c memo \<Rightarrow> 'c memo \<Rightarrow> bool" where
  "memo_step m m' =
     (m' = m
      \<or> (memo_cache m = None
         \<and> m' = m\<lparr> memo_cache := Some (memo_apply m (memo_fn m) (memo_decorators m)),
                   memo_calls := memo_calls m @ [(memo_fn m, memo_decorators m)] \<rparr>))"

definition grows :: "'c StoryStore \<Rightarrow> 'c StoryStore \<Rightarrow> bool" where
  "grows s s' =
     (heap_next s \<le> heap_next s'
      \<and> (\<forall>k. \<not> unknown_kind s k \<longrightarrow> \<not> unknown_kind s' k \<and> order_of s' k = order_of s k)
      \<and> (\<exists>released. cleaned s' = cleaned s @ released
            \<and> set released \<subseteq> (\<lambda>e. hooks (snd e)) ` set (stories s))
      \<and> (\<forall>e\<in>set (stories s'). e \<in> set (stories s)
            \<or> (hooks (snd e) = heap_next s \<and> heap_next s < heap_next s'))
      \<and> (\<forall>r m. r < heap_next s \<longrightarrow> memos s r = Some m
            \<longrightarrow> (\<exists>m'. memos s' r = Some m' \<and> memo_step m m'))
      \<and> (distinct (map fst (stories s))
            \<longrightarrow> (\<exists>P. stories s' = filter P (stories s))
              \<or> (\<exists>e. stories s' = AList.update (item_id e) e (stories s)
                    \<and> sf_id (storyFn e) = item_id e \<and> \<not> unknown_kind s' (item_kind e)
                    \<and> hooks e = heap_next s \<and> heap_next s < heap_next s')))"

text \<open>
  The closure, the state after the allocations and the entry of a call of \<^verbatim>\<open>addStory\<close>, as
  the proofs name them.
\<close>

definition registered_memo ::
  "'c StoryStore \<Rightarrow> AddStoryArgs \<Rightarrow> (LegacyStoryFn \<Rightarrow> DecoratorFunction list \<Rightarrow> 'c) \<Rightarrow> 'c memo" where
  "registered_memo s a ap =
     \<lparr> memo_fn = FinalStoryFn (arg_storyFn a), memo_decorators = decorators_for s a,
       memo_apply = ap, memo_cache = None, memo_calls = [] \<rparr>"

definition allocated ::
  "'c StoryStore \<Rightarrow> AddStoryArgs \<Rightarrow> (LegacyStoryFn \<Rightarrow> DecoratorFunction list \<Rightarrow> 'c) \<Rightarrow> 'c StoryStore" where
  "allocated s a ap =
     (ensureKind (arg_kind a) s)
       \<lparr> heap_next := Suc (heap_next s),
         memos := (memos s)(heap_next s \<mapsto> registered_memo s a ap) \<rparr>"

definition registered_entry :: "AddStoryArgs \<Rightarrow> ref \<Rightarrow> jsobj \<Rightarrow> StoreItem" where
  "registered_entry a r args =
     \<lparr> item_id = arg_id a, item_kind = arg_kind a, item_name = arg_name a,
       item_story = arg_name a, hooks = r, getDecorated = Some r, getOriginal = arg_storyFn a,
       storyFn = StoryFn (arg_id a) (arg_kind a) (arg_name a) r,
       item_parameters = (case arg_parameters a of None \<Rightarrow> [] | Some p \<Rightarrow> p),
       item_args = args \<rparr>"





definition md_decorators_only :: "DecoratorFunction list \<Rightarrow> StoryMetadata" where
  "md_decorators_only ds = \<lparr> md_parameters = None, md_decorators = ds \<rparr>"

definition decorated_base :: "composed StoryStore" where
  "decorated_base =
     snd (addKindMetadata ''a'' (md_decorators_only [2])
            (snd (addGlobalMetadata (md_decorators_only [3]) (new_store False))))"

definition story_decorated :: AddStoryArgs where
  "story_decorated =
     \<lparr> arg_id = ''a--b'', arg_kind = ''a'', arg_name = ''b'', arg_storyFn = 0,
       arg_parameters = None, arg_decorators = Some [1] \<rparr>"

definition decorated_store :: "composed StoryStore" where
  "decorated_store = snd (addStory story_decorated compose_pair False decorated_base)"

definition overwrite_base :: "composed StoryStore" where
  "overwrite_base = snd (addStory story_plain compose_pair False (new_store False))"

definition overwritten_store :: "composed StoryStore" where
  "overwritten_store = snd (addStory story_plain compose_pair False overwrite_base)"

section \<open>Lookup by id\<close>

text \<open>
  C8. \<^verbatim>\<open>fromId\<close> never throws. It returns \<^verbatim>\<open>null\<close> when the id is not in the table or the
  entry has no \<^verbatim>\<open>getDecorated\<close>, and the entry together with the current global args
  otherwise; whatever the body of its \<^verbatim>\<open>try\<close> raises is caught and gives \<^verbatim>\<open>null\<close> too.
\<close>

theorem fromId_never_throws:
  "fromId s storyId =
     (case map_of (stories s) storyId of
        None \<Rightarrow> Inr None
      | Some data \<Rightarrow>
          if getDecorated data = None then Inr None
          else Inr (Some \<lparr> pub_item = data, pub_globalArgs = globalArgs s \<rparr>))
   \<and> (\<forall>e. fromId s storyId \<noteq> Inl e)
   \<and> (\<forall>e. try_catch (Inl e) (\<lambda>e. Inr None) = (Inr None :: error + PublishedStoreItem option))"
  by (simp add: fromId_def fromId_try_def try_catch_def split: option.splits)

section \<open>The mutation guard\<close>

lemmas registration_defs =
  addStory_def ensureKind_def new_store_def combineParameters_def pick_def obj_get_def
  or_default_def defaults_of_def obj_assign_def spread_props_def Let_def story_with_def
  story_plain_def compose_pair_def




section \<open>Defaults that are falsy\<close>

text \<open>
  C3, at an input where the code departs from it. The argTypes declare the default 0 for
  \<^verbatim>\<open>x\<close>; the reducer tests \<^verbatim>\<open>if (defaultValue)\<close>, so the story is registered with no arg at all.
  With the default 1 the arg is there, and an explicit arg wins over it.
\<close>

theorem falsy_default_not_applied:
  "fst (addStory (story_with ''a--b'' ''a'' ''b''
                   [(''argTypes'', JObj [(''x'', JObj [(''defaultValue'', JNum 0)])])])
          compose_pair False (new_store False)) = Inr ()
   \<and> map_option item_args
        (map_of (stories (snd (addStory (story_with ''a--b'' ''a'' ''b''
                   [(''argTypes'', JObj [(''x'', JObj [(''defaultValue'', JNum 0)])])])
          compose_pair False (new_store False)))) ''a--b'') = Some []
   \<and> map_option item_args
        (map_of (stories (snd (addStory (story_with ''a--b'' ''a'' ''b''
                   [(''argTypes'', JObj [(''x'', JObj [(''defaultValue'', JNum 1)])])])
          compose_pair False (new_store False)))) ''a--b'') = Some [(''x'', JNum 1)]
   \<and> map_option item_args
        (map_of (stories (snd (addStory (story_with ''a--b'' ''a'' ''b''
                   [(''args'', JObj [(''x'', JNum 2)]),
                    (''argTypes'', JObj [(''x'', JObj [(''defaultValue'', JNum 1)])])])
          compose_pair False (new_store False)))) ''a--b'') = Some [(''x'', JNum 2)]"
  by (simp add: registration_defs)

text \<open>
  C2, at an input where the code departs from it. The previous session left \<^verbatim>\<open>dark\<close> at
  \<^verbatim>\<open>true\<close>; the first story declares \<^verbatim>\<open>globalArgs: { dark: false }\<close>, so \<^verbatim>\<open>dark\<close> is a key of the
  folded base. The reducer tests \<^verbatim>\<open>if (acc[key])\<close>, and the previous value is lost. Where the
  declared value is truthy (\<^verbatim>\<open>theme\<close>) the previous value is kept, and a key that is no longer
  declared (\<^verbatim>\<open>old\<close>) is dropped.
\<close>

theorem previous_global_arg_lost:
  "globalArgs
     (snd (finishConfiguring env
        (snd (addStory (story_with ''a--b'' ''a'' ''b''
                         [(''globalArgs'', JObj [(''dark'', JBool False)])])
                compose_pair False
                ((new_store False)\<lparr> globalArgs := [(''dark'', JBool True)] \<rparr>)))))
   = [(''dark'', JBool False)]
   \<and> globalArgs
     (snd (finishConfiguring env
        (snd (addStory (story_with ''a--b'' ''a'' ''b''
                         [(''globalArgs'', JObj [(''theme'', JStr ''light'')])])
                compose_pair False
                ((new_store False)\<lparr> globalArgs := [(''theme'', JStr ''dark''),
                                                     (''old'', JNum 1)] \<rparr>)))))
   = [(''theme'', JStr ''dark'')]"
  by (simp add: registration_defs finishConfiguring_def pushToManager_def fromId_def
      fromId_try_def try_catch_def reconcile_def)

section \<open>Release of the hooks\<close>

text \<open>
  C4, at an input where the code departs from it. The kind \<^verbatim>\<open>a\<close> has one story, which is
  docs-only. \<^verbatim>\<open>removeStoryKind\<close> finds the stories to clean through \<^verbatim>\<open>raw()\<close>, which leaves
  docs-only stories out: the story is purged from the table and its \<^verbatim>\<open>hooks.clean()\<close> is never
  called. \<^verbatim>\<open>remove\<close> of the same story does call it.
\<close>

theorem docs_only_handle_not_released:
  "fst (removeStoryKind ''a'' False
          (snd (addStory (story_with ''a--docs'' ''a'' ''docs'' [(''docsOnly'', JBool True)])
                  compose_pair False (new_store False)))) = Inr ()
   \<and> stories (snd (removeStoryKind ''a'' False
          (snd (addStory (story_with ''a--docs'' ''a'' ''docs'' [(''docsOnly'', JBool True)])
                  compose_pair False (new_store False))))) = []
   \<and> cleaned (snd (removeStoryKind ''a'' False
          (snd (addStory (story_with ''a--docs'' ''a'' ''docs'' [(''docsOnly'', JBool True)])
                  compose_pair False (new_store False))))) = []
   \<and> cleaned (snd (remove ''a--docs'' False
          (snd (addStory (story_with ''a--docs'' ''a'' ''docs'' [(''docsOnly'', JBool True)])
                  compose_pair False (new_store False))))) = [0]"
  by (simp add: registration_defs removeStoryKind_def remove_def cleanHooksForKind_def
      getStoriesForKind_def raw_def includeStory_def isStoryDocsOnly_def)

section \<open>The stored render function\<close>

lemma storyFn_call_raises: "fst (storyFn_call cl runtimeContext s) = Inl TypeError"
  by (simp add: storyFn_call_def getDecorated_call_def getFullParameters_def Let_def
      split: option.splits)

text \<open>
  C5, at an input where the code departs from it. A story is registered and its stored
  \<^verbatim>\<open>storyFn\<close> is called: the call of \<^verbatim>\<open>this.getFullParameters\<close> raises before the composed
  render function is applied, so no context reaches it.
\<close>

theorem storyFn_raises:
  "map_option storyFn
     (map_of (stories (snd (addStory story_plain compose_pair False (new_store False)))) ''a--b'')
     = Some (StoryFn ''a--b'' ''a'' ''b'' 0)
   \<and> fst (storyFn_call (StoryFn ''a--b'' ''a'' ''b'' 0) []
            (snd (addStory story_plain compose_pair False (new_store False)))) = Inl TypeError"
  by (simp add: registration_defs storyFn_call_def getDecorated_call_def getFullParameters_def)

section \<open>Sorting and folding association lists\<close>







lemma update_absent: "k \<notin> fst ` set al \<Longrightarrow> AList.update k v al = al @ [(k, v)]"
  by (induction al) auto

lemma fold_update_distinct:
  assumes "distinct (map fst xs)" and "fst ` set xs \<inter> fst ` set acc = {}"
  shows "fold (\<lambda>(k, v) a. if P v then AList.update k (g v) a else a) xs acc
         = acc @ map (\<lambda>(k, v). (k, g v)) (filter (\<lambda>(k, v). P v) xs)"
  using assms
proof (induction xs arbitrary: acc)
  case Nil
  then show ?case by simp
next
  case (Cons x xs)
  obtain k v where x: "x = (k, v)" by (cases x)
  show ?case
  proof (cases "P v")
    case True
    have absent: "k \<notin> fst ` set acc" using Cons.prems x by auto
    have disj: "fst ` set xs \<inter> fst ` set (acc @ [(k, v')]) = {}" for v'
      using Cons.prems x by auto
    have "fold (\<lambda>(k, v) a. if P v then AList.update k (g v) a else a) xs (acc @ [(k, g v)])
          = (acc @ [(k, g v)]) @ map (\<lambda>(k, v). (k, g v)) (filter (\<lambda>(k, v). P v) xs)"
      using Cons.IH [OF _ disj] Cons.prems by simp
    then show ?thesis
      using True x absent by (simp add: update_absent)
  next
    case False
    have disj: "fst ` set xs \<inter> fst ` set acc = {}" using Cons.prems by auto
    show ?thesis
      using False x Cons.IH [OF _ disj] Cons.prems by simp
  qed
qed

lemma sequence_err_map:
  "(\<And>x. x \<in> set xs \<Longrightarrow> f x = Inr (g x)) \<Longrightarrow> sequence_err (map f xs) = Inr (map g xs)"
  by (induction xs) simp_all

lemma filter_kind_Some:
  "filter_kind kind (map Some ps) = Inr (filter (\<lambda>p. item_kind (pub_item p) = kind) ps)"
  by (induction ps) simp_all

section \<open>The tables of a reachable store\<close>

lemma inv_lookup:
  assumes "store_inv s" and "e \<in> set (stories s)"
  shows "map_of (stories s) (fst e) = Some (snd e)"
  using assms by (simp add: store_inv_def)

lemma inv_entry:
  assumes "store_inv s" and "e \<in> set (stories s)"
  shows "entry_ok s e"
  using assms by (auto simp: store_inv_def list_all_iff)

lemma fromId_entry:
  assumes "store_inv s" and "e \<in> set (stories s)" and "getDecorated (snd e) \<noteq> None"
  shows "fromId s (item_id (snd e))
         = Inr (Some \<lparr> pub_item = snd e, pub_globalArgs = globalArgs s \<rparr>)"
proof -
  have "item_id (snd e) = fst e"
    using inv_entry [OF assms(1,2)] by (simp add: entry_ok_def)
  then show ?thesis
    using inv_lookup [OF assms(1,2)] assms(3)
    by (simp add: fromId_def fromId_try_def try_catch_def)
qed

lemma raw_inv:
  assumes "store_inv s"
  shows "raw s options
         = Inr (map (\<lambda>i. Some \<lparr> pub_item = i, pub_globalArgs = globalArgs s \<rparr>)
                  (filter (\<lambda>i. includeStory i options)
                     (filter (\<lambda>i. getDecorated i \<noteq> None) (map snd (stories s)))))"
  unfolding raw_def
proof (rule sequence_err_map)
  fix i
  assume "i \<in> set (filter (\<lambda>i. includeStory i options)
                     (filter (\<lambda>i. getDecorated i \<noteq> None) (map snd (stories s))))"
  then obtain e where e: "e \<in> set (stories s)" "i = snd e" "getDecorated i \<noteq> None"
    by auto
  show "fromId s (item_id i) = Inr (Some \<lparr> pub_item = i, pub_globalArgs = globalArgs s \<rparr>)"
    using fromId_entry [OF assms e(1)] e(2,3) by simp
qed

lemma set_update_subset: "set (AList.update k v al) \<subseteq> insert (k, v) (set al)"
  by (induction al) auto












section \<open>Docs-only stories\<close>







section \<open>One step of a client\<close>

lemma filter_all: "\<exists>P. xs = filter P xs"
  by (rule exI [of _ "\<lambda>x. True"]) simp

lemma grows_release:
  assumes "heap_next s' = heap_next s" and "memos s' = memos s"
      and "\<And>k. \<not> unknown_kind s k \<Longrightarrow> \<not> unknown_kind s' k \<and> order_of s' k = order_of s k"
      and "cleaned s' = cleaned s @ released"
      and "set released \<subseteq> (\<lambda>e. hooks (snd e)) ` set (stories s)"
      and "set (stories s') \<subseteq> set (stories s)"
      and "distinct (map fst (stories s)) \<Longrightarrow> \<exists>P. stories s' = filter P (stories s)"
  shows "grows s s'"
  unfolding grows_def
proof (intro conjI)
  show "\<exists>released. cleaned s' = cleaned s @ released
      \<and> set released \<subseteq> (\<lambda>e. hooks (snd e)) ` set (stories s)"
    using assms(4,5) by blast
  show "distinct (map fst (stories s))
      \<longrightarrow> (\<exists>P. stories s' = filter P (stories s))
        \<or> (\<exists>e. stories s' = AList.update (item_id e) e (stories s)
              \<and> sf_id (storyFn e) = item_id e \<and> \<not> unknown_kind s' (item_kind e)
              \<and> hooks e = heap_next s \<and> heap_next s < heap_next s')"
    using assms(7) by blast
qed (use assms in \<open>auto simp: memo_step_def\<close>)

lemma grows_filter:
  assumes "heap_next s' = heap_next s" and "memos s' = memos s"
      and "\<And>k. \<not> unknown_kind s k \<Longrightarrow> \<not> unknown_kind s' k \<and> order_of s' k = order_of s k"
      and "cleaned s' = cleaned s @ released"
      and "set released \<subseteq> (\<lambda>e. hooks (snd e)) ` set (stories s)"
      and "stories s' = filter P (stories s)"
  shows "grows s s'"
proof (rule grows_release [OF assms(1-5)])
  show "set (stories s') \<subseteq> set (stories s)" using assms(6) by auto
  show "\<exists>P. stories s' = filter P (stories s)" using assms(6) by blast
qed

lemma grows_same:
  assumes "kinds s' = kinds s" "stories s' = stories s" "heap_next s' = heap_next s"
          "memos s' = memos s" "cleaned s' = cleaned s"
  shows "grows s s'"
proof (rule grows_filter [where released = "[]" and P = "\<lambda>x. True"])
  show "\<not> unknown_kind s k \<Longrightarrow> \<not> unknown_kind s' k \<and> order_of s' k = order_of s k" for k
    using assms(1) by (simp add: unknown_kind_def order_of_def)
qed (use assms in simp_all)

lemma ensureKind_fields [simp]:
  "stories (ensureKind k s) = stories s" "heap_next (ensureKind k s) = heap_next s"
  "memos (ensureKind k s) = memos s" "cleaned (ensureKind k s) = cleaned s"
  "globalMetadata (ensureKind k s) = globalMetadata s"
  "parameterEnhancers (ensureKind k s) = parameterEnhancers s"
  by (simp_all add: ensureKind_def)

lemma ensureKind_known: "\<not> unknown_kind (ensureKind k s) k"
  by (simp add: ensureKind_def unknown_kind_def map_add_def)

lemma ensureKind_order:
  "\<not> unknown_kind s k' \<Longrightarrow>
     \<not> unknown_kind (ensureKind k s) k' \<and> order_of (ensureKind k s) k' = order_of s k'"
  by (auto simp: ensureKind_def unknown_kind_def order_of_def map_add_def split: option.splits)

lemma map_entry_order:
  assumes "\<And>m. kind_order (f m) = kind_order m"
  shows "unknown_kind (s\<lparr> kinds := AList.map_entry k f (kinds s) \<rparr>) k' = unknown_kind s k'
       \<and> order_of (s\<lparr> kinds := AList.map_entry k f (kinds s) \<rparr>) k' = order_of s k'"
  using assms
  by (auto simp: unknown_kind_def order_of_def map_of_map_entry split: option.splits)

lemma grows_kinds:
  assumes "stories s' = stories s" "heap_next s' = heap_next s"
          "memos s' = memos s" "cleaned s' = cleaned s"
          "\<And>k. \<not> unknown_kind s k \<Longrightarrow> \<not> unknown_kind s' k \<and> order_of s' k = order_of s k"
  shows "grows s s'"
  by (rule grows_filter [where released = "[]" and P = "\<lambda>x. True"]) (use assms in simp_all)

lemma grows_addGlobalMetadata: "grows s (snd (addGlobalMetadata md s))"
  by (rule grows_same) (simp_all add: addGlobalMetadata_def)

lemma grows_clearGlobalDecorators: "grows s (clearGlobalDecorators s)"
  by (rule grows_same) (simp_all add: clearGlobalDecorators_def)

lemma grows_startConfiguring: "grows s (startConfiguring s)"
  by (rule grows_same) (simp_all add: startConfiguring_def)

lemma grows_addParameterEnhancer: "grows s (snd (addParameterEnhancer f s))"
  by (rule grows_same) (simp_all add: addParameterEnhancer_def)

lemma grows_updateGlobalArgs: "grows s (snd (updateGlobalArgs a s))"
  by (rule grows_same) (simp_all add: updateGlobalArgs_def Let_def)

lemma pushToManager_fields:
  "kinds (snd (pushToManager env s)) = kinds s" "stories (snd (pushToManager env s)) = stories s"
  "heap_next (snd (pushToManager env s)) = heap_next s" "memos (snd (pushToManager env s)) = memos s"
  "cleaned (snd (pushToManager env s)) = cleaned s"
  by (simp_all add: pushToManager_def split: sum.splits)

lemma grows_finishConfiguring: "grows s (snd (finishConfiguring env s))"
proof (rule grows_same)
  obtain r s1 where p: "pushToManager env (s\<lparr> configuring := False \<rparr>) = (r, s1)"
    by (cases "pushToManager env (s\<lparr> configuring := False \<rparr>)")
  have s1: "kinds s1 = kinds s" "stories s1 = stories s" "heap_next s1 = heap_next s"
    "memos s1 = memos s" "cleaned s1 = cleaned s"
    using pushToManager_fields [of env "s\<lparr> configuring := False \<rparr>"] p by simp_all
  show "kinds (snd (finishConfiguring env s)) = kinds s"
    using p s1 by (simp add: finishConfiguring_def Let_def split: sum.splits list.splits option.splits)
  show "stories (snd (finishConfiguring env s)) = stories s"
    using p s1 by (simp add: finishConfiguring_def Let_def split: sum.splits list.splits option.splits)
  show "heap_next (snd (finishConfiguring env s)) = heap_next s"
    using p s1 by (simp add: finishConfiguring_def Let_def split: sum.splits list.splits option.splits)
  show "memos (snd (finishConfiguring env s)) = memos s"
    using p s1 by (simp add: finishConfiguring_def Let_def split: sum.splits list.splits option.splits)
  show "cleaned (snd (finishConfiguring env s)) = cleaned s"
    using p s1 by (simp add: finishConfiguring_def Let_def split: sum.splits list.splits option.splits)
qed

lemma grows_addKindMetadata: "grows s (snd (addKindMetadata k md s))"
proof (rule grows_kinds)
  fix k'
  assume known: "\<not> unknown_kind s k'"
  let ?f = "\<lambda>m. m\<lparr> kind_parameters := combineParameters [Some (kind_parameters m), md_parameters md],
                    kind_decorators := kind_decorators m @ md_decorators md \<rparr>"
  have "snd (addKindMetadata k md s)
        = (ensureKind k s)\<lparr> kinds := AList.map_entry k ?f (kinds (ensureKind k s)) \<rparr>"
    by (simp add: addKindMetadata_def Let_def)
  then show "\<not> unknown_kind (snd (addKindMetadata k md s)) k'
      \<and> order_of (snd (addKindMetadata k md s)) k' = order_of s k'"
    using map_entry_order [where f = ?f and s = "ensureKind k s" and k = k and k' = k'] ensureKind_order [OF known, of k]
    by simp
qed (simp_all add: addKindMetadata_def Let_def)

lemma ensureKind_lookup:
  "map_of (kinds (ensureKind k s)) k
   = Some (case map_of (kinds s) k of
             None \<Rightarrow> \<lparr> kind_order = int (length (kinds s)), kind_parameters = [],
                        kind_decorators = [] \<rparr>
           | Some m \<Rightarrow> m)"
  by (auto simp: ensureKind_def map_add_def split: option.splits)

lemma addStory_decorators:
  "(case arg_decorators a of None \<Rightarrow> [] | Some d \<Rightarrow> d)
      @ kind_decorators (case map_of (kinds s) (arg_kind a) of
             None \<Rightarrow> \<lparr> kind_order = int (length (kinds s)), kind_parameters = [],
                        kind_decorators = [] \<rparr>
           | Some m \<Rightarrow> m)
      @ global_decorators (globalMetadata s) = decorators_for s a"
  by (simp add: decorators_for_def split: option.splits)

lemma addStory_success:
  assumes "addStory a ap u s = (Inr (), s')"
  shows "\<exists>args. s' = (allocated s a ap)
           \<lparr> stories := AList.update (arg_id a) (registered_entry a (heap_next s) args) (stories s) \<rparr>"
  using assms addStory_decorators [of a s]
  by (auto simp add: addStory_def Let_def ensureKind_lookup allocated_def registered_memo_def
      registered_entry_def split: if_splits sum.splits)

lemma addStory_failure:
  assumes "addStory a ap u s = (Inl e, s')"
  shows "s' = s \<or> s' = allocated s a ap"
  using assms addStory_decorators [of a s]
  by (simp add: addStory_def Let_def ensureKind_lookup allocated_def registered_memo_def
      split: if_splits sum.splits)

lemma addStory_shape:
  "snd (addStory a ap u s) = s \<or> snd (addStory a ap u s) = allocated s a ap
   \<or> (\<exists>args. snd (addStory a ap u s) = (allocated s a ap)
         \<lparr> stories := AList.update (arg_id a) (registered_entry a (heap_next s) args) (stories s) \<rparr>)"
proof (cases "addStory a ap u s")
  case (Pair r s')
  show ?thesis
  proof (cases r)
    case (Inl e)
    then show ?thesis using addStory_failure [of a ap u s e s'] Pair by auto
  next
    case (Inr x)
    then show ?thesis using addStory_success [of a ap u s s'] Pair by auto
  qed
qed

lemma grows_allocated: "grows s (allocated s a ap)"
  unfolding grows_def
proof (intro conjI)
  show "distinct (map fst (stories s))
      \<longrightarrow> (\<exists>P. stories (allocated s a ap) = filter P (stories s))
        \<or> (\<exists>e. stories (allocated s a ap) = AList.update (item_id e) e (stories s)
              \<and> sf_id (storyFn e) = item_id e \<and> \<not> unknown_kind (allocated s a ap) (item_kind e)
              \<and> hooks e = heap_next s \<and> heap_next s < heap_next (allocated s a ap))"
    using filter_all [of "stories s"] by (simp add: allocated_def)
  show "\<forall>k. \<not> unknown_kind s k
      \<longrightarrow> \<not> unknown_kind (allocated s a ap) k \<and> order_of (allocated s a ap) k = order_of s k"
    using ensureKind_order [of s _ "arg_kind a"]
    by (simp add: allocated_def unknown_kind_def order_of_def)
qed (simp_all add: allocated_def memo_step_def)

lemma allocated_fields [simp]:
  "heap_next (allocated s a ap) = Suc (heap_next s)"
  "stories (allocated s a ap) = stories s"
  "cleaned (allocated s a ap) = cleaned s"
  "kinds (allocated s a ap) = kinds (ensureKind (arg_kind a) s)"
  "memos (allocated s a ap) = (memos s)(heap_next s \<mapsto> registered_memo s a ap)"
  by (simp_all add: allocated_def)

lemma unknown_kind_cong: "kinds s' = kinds s \<Longrightarrow> unknown_kind s' k = unknown_kind s k"
  by (simp add: unknown_kind_def)

lemma order_of_cong: "kinds s' = kinds s \<Longrightarrow> order_of s' k = order_of s k"
  by (simp add: order_of_def)

lemma grows_registered:
  "grows s ((allocated s a ap)
      \<lparr> stories := AList.update (arg_id a) (registered_entry a (heap_next s) args) (stories s) \<rparr>)"
    (is "grows s ?s'")
  unfolding grows_def
proof (intro conjI)
  have k: "kinds ?s' = kinds (ensureKind (arg_kind a) s)" by simp
  show "\<forall>k. \<not> unknown_kind s k \<longrightarrow> \<not> unknown_kind ?s' k \<and> order_of ?s' k = order_of s k"
    using ensureKind_order [of s _ "arg_kind a"]
    by (simp add: unknown_kind_cong [OF k] order_of_cong [OF k])
  show "\<forall>e\<in>set (stories ?s'). e \<in> set (stories s)
      \<or> (hooks (snd e) = heap_next s \<and> heap_next s < heap_next ?s')"
    using set_update_subset [of "arg_id a" "registered_entry a (heap_next s) args" "stories s"]
    by (auto simp: registered_entry_def)
  have "\<not> unknown_kind ?s' (arg_kind a)"
    using ensureKind_known [of "arg_kind a" s] by (simp add: unknown_kind_cong [OF k])
  then have "stories ?s' = AList.update (item_id (registered_entry a (heap_next s) args))
                 (registered_entry a (heap_next s) args) (stories s)
      \<and> sf_id (storyFn (registered_entry a (heap_next s) args))
          = item_id (registered_entry a (heap_next s) args)
      \<and> \<not> unknown_kind ?s' (item_kind (registered_entry a (heap_next s) args))
      \<and> hooks (registered_entry a (heap_next s) args) = heap_next s
      \<and> heap_next s < heap_next ?s'"
    by (simp add: registered_entry_def)
  then show "distinct (map fst (stories s))
      \<longrightarrow> (\<exists>P. stories ?s' = filter P (stories s))
        \<or> (\<exists>e. stories ?s' = AList.update (item_id e) e (stories s)
              \<and> sf_id (storyFn e) = item_id e \<and> \<not> unknown_kind ?s' (item_kind e)
              \<and> hooks e = heap_next s \<and> heap_next s < heap_next ?s')"
    by blast
qed (simp_all add: memo_step_def)

lemma grows_refl: "grows s s"
  by (rule grows_same) simp_all

lemma grows_addStory: "grows s (snd (addStory a ap u s))"
  using addStory_shape [of a ap u s] grows_refl [of s] grows_allocated [of s a ap]
    grows_registered [where s = s and a = a and ap = ap]
  by auto

lemma cleanHooks_shape:
  "\<exists>released. cleanHooks storyId s = s\<lparr> cleaned := cleaned s @ released \<rparr>
      \<and> set released \<subseteq> (\<lambda>e. hooks (snd e)) ` set (stories s)"
proof (cases "map_of (stories s) storyId")
  case None
  then have "cleanHooks storyId s = s\<lparr> cleaned := cleaned s @ [] \<rparr>"
    by (simp add: cleanHooks_def)
  then show ?thesis by (intro exI [of _ "[]"]) simp
next
  case (Some data)
  then have "(storyId, data) \<in> set (stories s)" by (rule map_of_SomeD)
  then have "hooks data \<in> (\<lambda>e. hooks (snd e)) ` set (stories s)" by force
  moreover have "cleanHooks storyId s = s\<lparr> cleaned := cleaned s @ [hooks data] \<rparr>"
    using Some by (simp add: cleanHooks_def)
  ultimately show ?thesis by (intro exI [of _ "[hooks data]"]) simp
qed

lemma fold_cleanHooks_shape:
  "\<exists>released. fold (\<lambda>story. cleanHooks (f story)) found s = s\<lparr> cleaned := cleaned s @ released \<rparr>
      \<and> set released \<subseteq> (\<lambda>e. hooks (snd e)) ` set (stories s)"
proof (induction found arbitrary: s)
  case Nil
  show ?case by (intro exI [of _ "[]"]) simp
next
  case (Cons x xs)
  obtain r1 where r1: "cleanHooks (f x) s = s\<lparr> cleaned := cleaned s @ r1 \<rparr>"
    "set r1 \<subseteq> (\<lambda>e. hooks (snd e)) ` set (stories s)"
    using cleanHooks_shape by blast
  obtain r2 where r2: "fold (\<lambda>story. cleanHooks (f story)) xs (s\<lparr> cleaned := cleaned s @ r1 \<rparr>)
      = (s\<lparr> cleaned := cleaned s @ r1 \<rparr>)\<lparr> cleaned := cleaned (s\<lparr> cleaned := cleaned s @ r1 \<rparr>) @ r2 \<rparr>"
    "set r2 \<subseteq> (\<lambda>e. hooks (snd e)) ` set (stories (s\<lparr> cleaned := cleaned s @ r1 \<rparr>))"
    using Cons.IH by blast
  show ?case
    using r1 r2 by (intro exI [of _ "r1 @ r2"]) simp
qed

lemma cleanHooksForKind_shape:
  "\<exists>released. snd (cleanHooksForKind kind s) = s\<lparr> cleaned := cleaned s @ released \<rparr>
      \<and> set released \<subseteq> (\<lambda>e. hooks (snd e)) ` set (stories s)"
proof (cases "getStoriesForKind s kind")
  case (Inl e)
  then have "snd (cleanHooksForKind kind s) = s\<lparr> cleaned := cleaned s @ [] \<rparr>"
    by (simp add: cleanHooksForKind_def)
  then show ?thesis by (intro exI [of _ "[]"]) simp
next
  case (Inr found)
  then show ?thesis
    using fold_cleanHooks_shape [of "\<lambda>story. item_id (pub_item story)" found s]
    by (simp add: cleanHooksForKind_def)
qed

lemma grows_cleaned:
  assumes "set released \<subseteq> (\<lambda>e. hooks (snd e)) ` set (stories s)"
  shows "grows s (s\<lparr> cleaned := cleaned s @ released \<rparr>)"
  by (rule grows_filter [where released = released and P = "\<lambda>x. True"])
     (use assms in \<open>simp_all add: unknown_kind_def order_of_def\<close>)

lemma grows_cleanHooks: "grows s (cleanHooks storyId s)"
  using cleanHooks_shape [of storyId s] grows_cleaned [of _ s] by auto

lemma grows_cleanHooksForKind: "grows s (snd (cleanHooksForKind kind s))"
  using cleanHooksForKind_shape [of kind s] grows_cleaned [of _ s] by auto

lemma remove_permitted:
  assumes "configuring s \<or> u"
  shows "\<exists>released. remove storyId u s
           = (Inr (), s\<lparr> stories := AList.delete storyId (stories s),
                          cleaned := cleaned s @ released \<rparr>)
         \<and> set released \<subseteq> (\<lambda>e. hooks (snd e)) ` set (stories s)"
proof -
  have guard: "\<not> (\<not> configuring s \<and> \<not> u)" using assms by simp
  show ?thesis
  proof (cases "map_of (stories s) storyId")
    case None
    have "remove storyId u s
          = (Inr (), s\<lparr> stories := AList.delete storyId (stories s), cleaned := cleaned s @ [] \<rparr>)"
      unfolding remove_def Let_def if_not_P [OF guard] using None by simp
    then show ?thesis by (intro exI [of _ "[]"]) simp
  next
    case (Some data)
    then have "(storyId, data) \<in> set (stories s)" by (rule map_of_SomeD)
    then have held: "hooks data \<in> (\<lambda>e. hooks (snd e)) ` set (stories s)" by force
    have "remove storyId u s
          = (Inr (), s\<lparr> stories := AList.delete storyId (stories s),
                         cleaned := cleaned s @ [hooks data] \<rparr>)"
      unfolding remove_def Let_def if_not_P [OF guard] using Some by simp
    then show ?thesis using held by (intro exI [of _ "[hooks data]"]) simp
  qed
qed

lemma remove_refused:
  assumes "\<not> configuring s \<and> \<not> u"
  shows "snd (remove storyId u s) = s"
  using assms by (simp add: remove_def)

lemma grows_remove: "grows s (snd (remove storyId u s))"
proof (cases "configuring s \<or> u")
  case False
  then show ?thesis using grows_refl [of s] remove_refused [of s u storyId] by simp
next
  case True
  from remove_permitted [OF True, of storyId] obtain released where
    r: "remove storyId u s
        = (Inr (), s\<lparr> stories := AList.delete storyId (stories s), cleaned := cleaned s @ released \<rparr>)"
       "set released \<subseteq> (\<lambda>e. hooks (snd e)) ` set (stories s)"
    by blast
  show ?thesis
    by (rule grows_filter [where released = released and P = "\<lambda>(k, v). storyId \<noteq> k"])
       (use r in \<open>simp_all add: unknown_kind_def order_of_def AList.delete_eq\<close>)
qed

lemma fold_keep_subset:
  "set (fold (\<lambda>(k, v) acc. if P v then AList.update k v acc else acc) xs acc)
   \<subseteq> set acc \<union> set xs"
proof (induction xs arbitrary: acc)
  case Nil
  show ?case by simp
next
  case (Cons x xs)
  obtain k v where x: "x = (k, v)" by (cases x)
  show ?case
    using Cons.IH [of "if P v then AList.update k v acc else acc"]
      set_update_subset [of k v acc] x
    by (auto split: if_splits)
qed

lemma fold_keep_filter:
  assumes "distinct (map fst xs)"
  shows "fold (\<lambda>(k, v) acc. if P v then AList.update k v acc else acc) xs []
         = filter (\<lambda>(k, v). P v) xs"
proof -
  have "map (\<lambda>(k, v). (k, v)) ys = ys" for ys :: "('a \<times> 'b) list"
    by (induction ys) auto
  then show ?thesis
    using fold_update_distinct [OF assms, of "[]" P "\<lambda>v. v"] by simp
qed

lemma removeStoryKind_refused:
  assumes "(\<not> configuring s \<and> \<not> u) \<or> map_of (kinds s) kind = None"
  shows "snd (removeStoryKind kind u s) = s"
  using assms by (auto simp: removeStoryKind_def)

lemma removeStoryKind_permitted:
  assumes "\<not> (\<not> configuring s \<and> \<not> u)" and "map_of (kinds s) kind \<noteq> None"
  shows "\<exists>released kept.
           snd (removeStoryKind kind u s)
           = s\<lparr> kinds := AList.map_entry kind
                          (\<lambda>m. m\<lparr> kind_parameters := [], kind_decorators := [] \<rparr>) (kinds s),
                cleaned := cleaned s @ released, stories := kept \<rparr>
         \<and> set released \<subseteq> (\<lambda>e. hooks (snd e)) ` set (stories s)
         \<and> (kept = stories s
            \<or> kept = fold (\<lambda>(storyId, story) acc.
                            if item_kind story \<noteq> kind then AList.update storyId story acc else acc)
                       (stories s) [])"
proof -
  define s1 where "s1 = s\<lparr> kinds := AList.map_entry kind
      (\<lambda>m. m\<lparr> kind_parameters := [], kind_decorators := [] \<rparr>) (kinds s) \<rparr>"
  obtain released where released:
    "snd (cleanHooksForKind kind s1) = s1\<lparr> cleaned := cleaned s1 @ released \<rparr>"
    "set released \<subseteq> (\<lambda>e. hooks (snd e)) ` set (stories s1)"
    using cleanHooksForKind_shape by blast
  obtain r s2 where c: "cleanHooksForKind kind s1 = (r, s2)"
    by (cases "cleanHooksForKind kind s1")
  have s2: "s2 = s1\<lparr> cleaned := cleaned s1 @ released \<rparr>"
    using released(1) c by simp
  have unfold: "removeStoryKind kind u s
      = (case cleanHooksForKind kind s1 of
           (Inl e, s2) \<Rightarrow> (Inl e, s2)
         | (Inr u, s2) \<Rightarrow>
             (Inr (),
              s2\<lparr> stories :=
                    fold (\<lambda>(storyId, story) acc.
                            if item_kind story \<noteq> kind then AList.update storyId story acc else acc)
                      (stories s2) [] \<rparr>))"
    unfolding removeStoryKind_def Let_def s1_def if_not_P [OF assms(1)] if_not_P [OF assms(2)]
    by (rule refl)
  show ?thesis
  proof (cases r)
    case (Inl e)
    then have "snd (removeStoryKind kind u s) = s2"
      using unfold c by simp
    then have "snd (removeStoryKind kind u s)
        = s\<lparr> kinds := AList.map_entry kind
                          (\<lambda>m. m\<lparr> kind_parameters := [], kind_decorators := [] \<rparr>) (kinds s),
             cleaned := cleaned s @ released, stories := stories s \<rparr>
        \<and> set released \<subseteq> (\<lambda>e. hooks (snd e)) ` set (stories s)
        \<and> (stories s = stories s
            \<or> stories s = fold (\<lambda>(storyId, story) acc.
                            if item_kind story \<noteq> kind then AList.update storyId story acc else acc)
                       (stories s) [])"
      using s2 released(2) by (simp add: s1_def)
    then show ?thesis by blast
  next
    case (Inr x)
    then have "snd (removeStoryKind kind u s)
        = s2\<lparr> stories :=
                fold (\<lambda>(storyId, story) acc.
                        if item_kind story \<noteq> kind then AList.update storyId story acc else acc)
                  (stories s2) [] \<rparr>"
      using unfold c by simp
    then have "snd (removeStoryKind kind u s)
        = s\<lparr> kinds := AList.map_entry kind
                          (\<lambda>m. m\<lparr> kind_parameters := [], kind_decorators := [] \<rparr>) (kinds s),
             cleaned := cleaned s @ released,
             stories := fold (\<lambda>(storyId, story) acc.
                        if item_kind story \<noteq> kind then AList.update storyId story acc else acc)
                  (stories s) [] \<rparr>
        \<and> set released \<subseteq> (\<lambda>e. hooks (snd e)) ` set (stories s)"
      using s2 released(2) by (simp add: s1_def)
    then show ?thesis by blast
  qed
qed

lemma grows_removeStoryKind: "grows s (snd (removeStoryKind kind u s))"
proof (cases "(\<not> configuring s \<and> \<not> u) \<or> map_of (kinds s) kind = None")
  case True
  then show ?thesis using grows_refl [of s] removeStoryKind_refused [of s u kind] by simp
next
  case False
  then have p: "\<not> (\<not> configuring s \<and> \<not> u)" "map_of (kinds s) kind \<noteq> None" by auto
  let ?fold = "fold (\<lambda>(storyId, story) acc.
                  if item_kind story \<noteq> kind then AList.update storyId story acc else acc)
                (stories s) []"
  from removeStoryKind_permitted [OF p] obtain released kept where
    r: "snd (removeStoryKind kind u s)
        = s\<lparr> kinds := AList.map_entry kind
                       (\<lambda>m. m\<lparr> kind_parameters := [], kind_decorators := [] \<rparr>) (kinds s),
             cleaned := cleaned s @ released, stories := kept \<rparr>"
       "set released \<subseteq> (\<lambda>e. hooks (snd e)) ` set (stories s)"
       "kept = stories s \<or> kept = ?fold"
    by blast
  have sub: "set kept \<subseteq> set (stories s)"
    using r(3) fold_keep_subset [of "\<lambda>v. item_kind v \<noteq> kind" "stories s" "[]"] by auto
  have filt: "\<exists>P. kept = filter P (stories s)" if "distinct (map fst (stories s))"
    using r(3) fold_keep_filter [OF that, of "\<lambda>v. item_kind v \<noteq> kind"] filter_all [of "stories s"]
    by auto
  have kinds: "\<not> unknown_kind (snd (removeStoryKind kind u s)) k
      \<and> order_of (snd (removeStoryKind kind u s)) k = order_of s k"
    if "\<not> unknown_kind s k" for k
    using that r(1)
      map_entry_order [where f = "\<lambda>m. m\<lparr> kind_parameters := [], kind_decorators := [] \<rparr>"
        and s = s and k = kind and k' = k]
    by (simp add: unknown_kind_def order_of_def)
  show ?thesis
    by (rule grows_release [where released = released])
       (use r sub filt kinds in simp_all)
qed

lemma getDecorated_call_shape:
  "snd (getDecorated_call r s) = s
   \<or> (\<exists>m. memos s r = Some m \<and> memo_cache m = None
        \<and> snd (getDecorated_call r s)
            = s\<lparr> memos := (memos s)(r \<mapsto>
                  m\<lparr> memo_cache := Some (memo_apply m (memo_fn m) (memo_decorators m)),
                     memo_calls := memo_calls m @ [(memo_fn m, memo_decorators m)] \<rparr>) \<rparr>)"
  by (simp add: getDecorated_call_def Let_def split: option.splits)

lemma grows_getDecorated_call: "grows s (snd (getDecorated_call r s))"
  using getDecorated_call_shape [of r s]
proof
  assume "snd (getDecorated_call r s) = s"
  then show ?thesis using grows_refl [of s] by simp
next
  assume "\<exists>m. memos s r = Some m \<and> memo_cache m = None
        \<and> snd (getDecorated_call r s)
            = s\<lparr> memos := (memos s)(r \<mapsto>
                  m\<lparr> memo_cache := Some (memo_apply m (memo_fn m) (memo_decorators m)),
                     memo_calls := memo_calls m @ [(memo_fn m, memo_decorators m)] \<rparr>) \<rparr>"
  then obtain m where m: "memos s r = Some m" "memo_cache m = None"
    "snd (getDecorated_call r s)
            = s\<lparr> memos := (memos s)(r \<mapsto>
                  m\<lparr> memo_cache := Some (memo_apply m (memo_fn m) (memo_decorators m)),
                     memo_calls := memo_calls m @ [(memo_fn m, memo_decorators m)] \<rparr>) \<rparr>"
    by blast
  show ?thesis
    unfolding grows_def m(3)
    using m(1,2) filter_all [of "stories s"]
    by (auto simp: unknown_kind_def order_of_def memo_step_def)
qed

lemma storyFn_call_state: "snd (storyFn_call cl rc s) = snd (getDecorated_call (sf_ref cl) s)"
  by (cases "getDecorated_call (sf_ref cl) s")
     (simp add: storyFn_call_def getFullParameters_def split: sum.splits)

lemma grows_exec: "grows s (exec env op s)"
proof (cases op)
  case (AddStory a ap u)
  then show ?thesis using grows_addStory by simp
next
  case (Remove storyId u)
  then show ?thesis using grows_remove by simp
next
  case (RemoveStoryKind kind u)
  then show ?thesis using grows_removeStoryKind by simp
next
  case (AddKindMetadata kind md)
  then show ?thesis using grows_addKindMetadata by simp
next
  case (AddGlobalMetadata md)
  then show ?thesis using grows_addGlobalMetadata by simp
next
  case ClearGlobalDecorators
  then show ?thesis using grows_clearGlobalDecorators by simp
next
  case (AddParameterEnhancer f)
  then show ?thesis using grows_addParameterEnhancer by simp
next
  case StartConfiguring
  then show ?thesis using grows_startConfiguring by simp
next
  case FinishConfiguring
  then show ?thesis using grows_finishConfiguring by simp
next
  case (UpdateGlobalArgs a)
  then show ?thesis using grows_updateGlobalArgs by simp
next
  case (CleanHooks storyId)
  then show ?thesis using grows_cleanHooks by simp
next
  case (CleanHooksForKind kind)
  then show ?thesis using grows_cleanHooksForKind by simp
next
  case (GetDecorated r)
  then show ?thesis using grows_getDecorated_call by simp
next
  case (CallStoryFn cl rc)
  then show ?thesis using grows_getDecorated_call by (simp add: storyFn_call_state)
qed

section \<open>Reachable states\<close>

lemma run_Nil [simp]: "run env [] s = s"
  by (simp add: run_def)

lemma run_Cons [simp]: "run env (op # ops) s = run env ops (exec env op s)"
  by (simp add: run_def)

lemma entry_ok_grows:
  assumes "grows s s'" and "entry_ok s e"
  shows "entry_ok s' e"
  using assms by (auto simp: grows_def entry_ok_def)

lemma distinct_hooks_update:
  assumes "distinct (map (\<lambda>e. h (snd e)) al)" and "h v \<notin> (\<lambda>e. h (snd e)) ` set al"
  shows "distinct (map (\<lambda>e. h (snd e)) (AList.update k v al))"
  using assms
proof (induction al)
  case Nil
  show ?case by simp
next
  case (Cons x al)
  obtain k' v' where x: "x = (k', v')" by (cases x)
  show ?case
  proof (cases "k' = k")
    case True
    then show ?thesis using Cons.prems x by auto
  next
    case False
    have "h v' \<notin> (\<lambda>e. h (snd e)) ` set (AList.update k v al)"
    proof
      assume "h v' \<in> (\<lambda>e. h (snd e)) ` set (AList.update k v al)"
      then obtain e where e: "e \<in> set (AList.update k v al)" "h v' = h (snd e)" by auto
      then have "e = (k, v) \<or> e \<in> set al"
        using set_update_subset [of k v al] by auto
      then show False
        using e(2) Cons.prems x by auto
    qed
    then show ?thesis
      using False x Cons.IH Cons.prems by auto
  qed
qed

lemma inv_step:
  assumes inv: "store_inv s" and g: "grows s s'"
  shows "store_inv s'"
proof -
  have d: "distinct (map fst (stories s))"
    and ok: "\<And>e. e \<in> set (stories s) \<Longrightarrow> entry_ok s e"
    and dh: "distinct (map (\<lambda>e. hooks (snd e)) (stories s))"
    using inv by (auto simp: store_inv_def list_all_iff)
  from g d consider
      (filtered) P where "stories s' = filter P (stories s)"
    | (written) e where "stories s' = AList.update (item_id e) e (stories s)"
        "sf_id (storyFn e) = item_id e" "\<not> unknown_kind s' (item_kind e)"
        "hooks e = heap_next s" "heap_next s < heap_next s'"
    unfolding grows_def by blast
  then show ?thesis
  proof cases
    case filtered
    have "list_all (entry_ok s') (stories s')"
      using filtered ok entry_ok_grows [OF g] by (auto simp: list_all_iff)
    then show ?thesis
      using filtered d dh by (simp add: store_inv_def distinct_map_filter)
  next
    case written
    have new_ok: "entry_ok s' (item_id e, e)"
      using written by (simp add: entry_ok_def)
    have "entry_ok s' x" if "x \<in> set (stories s')" for x
    proof -
      have "x = (item_id e, e) \<or> x \<in> set (stories s)"
        using that written(1) set_update_subset [of "item_id e" e "stories s"] by auto
      then show ?thesis
        using new_ok ok entry_ok_grows [OF g] by blast
    qed
    then have all_ok: "list_all (entry_ok s') (stories s')"
      by (simp add: list_all_iff)
    have "hooks e \<notin> (\<lambda>x. hooks (snd x)) ` set (stories s)"
    proof
      assume "hooks e \<in> (\<lambda>x. hooks (snd x)) ` set (stories s)"
      then obtain x where x: "x \<in> set (stories s)" "hooks e = hooks (snd x)" by auto
      have "hooks (snd x) < heap_next s"
        using ok [OF x(1)] by (simp add: entry_ok_def)
      then show False using x(2) written(4) by simp
    qed
    then have "distinct (map (\<lambda>x. hooks (snd x)) (stories s'))"
      using written(1) dh distinct_hooks_update [of hooks "stories s" e "item_id e"] by simp
    then show ?thesis
      using all_ok written(1) d by (simp add: store_inv_def distinct_update)
  qed
qed

lemma inv_new_store: "store_inv (new_store ch)"
  by (simp add: store_inv_def new_store_def)

lemma inv_exec: "store_inv s \<Longrightarrow> store_inv (exec env op s)"
  using inv_step grows_exec by blast

lemma inv_run: "store_inv s \<Longrightarrow> store_inv (run env ops s)"
  by (induction ops arbitrary: s) (simp_all add: inv_exec)

lemma reachable_inv: "store_inv (run env ops (new_store ch))"
  by (rule inv_run) (rule inv_new_store)


section \<open>The default order of extract\<close>











section \<open>Decorators and their composition\<close>

lemma memo_state_step:
  assumes "memo_state fn d ap m" and "memo_step m m'"
  shows "memo_state fn d ap m'"
  using assms by (auto simp: memo_state_def memo_step_def)

lemma memo_exec:
  assumes "r < heap_next s" and "memos s r = Some m" and "memo_state fn d ap m"
  shows "\<exists>m'. memos (exec env op s) r = Some m' \<and> memo_state fn d ap m'
           \<and> r < heap_next (exec env op s)"
proof -
  have g: "grows s (exec env op s)" by (rule grows_exec)
  then obtain m' where "memos (exec env op s) r = Some m'" "memo_step m m'"
    using assms(1,2) unfolding grows_def by blast
  moreover have "r < heap_next (exec env op s)"
    using g assms(1) by (simp add: grows_def)
  ultimately show ?thesis
    using memo_state_step [OF assms(3)] by blast
qed

lemma memo_run:
  assumes "r < heap_next s" and "memos s r = Some m" and "memo_state fn d ap m"
  shows "\<exists>m'. memos (run env ops s) r = Some m' \<and> memo_state fn d ap m'"
  using assms
proof (induction ops arbitrary: s m)
  case Nil
  then show ?case by auto
next
  case (Cons op ops)
  from memo_exec [OF Cons.prems, of env op] obtain m1 where
    "memos (exec env op s) r = Some m1" "memo_state fn d ap m1" "r < heap_next (exec env op s)"
    by blast
  then show ?case
    using Cons.IH [of "exec env op s" m1] by simp
qed

lemma getDecorated_call_memo:
  assumes "memos s r = Some m" and "memo_state fn d ap m"
  shows "fst (getDecorated_call r s) = Inr (ap fn d)
       \<and> (\<exists>m'. memos (snd (getDecorated_call r s)) r = Some m' \<and> memo_calls m' = [(fn, d)])"
  using assms by (auto simp: getDecorated_call_def memo_state_def Let_def)

text \<open>
  C9. A story is registered with its own decorators, under a kind and with global decorators.
  The closure \<^verbatim>\<open>getDecorated\<close> of its entry has not called the composer at registration.
  Whatever the client does afterwards, the closure has called the composer at most once, with
  the final story function and the decorators of the story, then of the kind, then the global
  ones; every call of \<^verbatim>\<open>getDecorated\<close> returns that composition, and after a call the composer
  has been called exactly once.
\<close>

theorem decorators_composed_once:
  assumes "addStory a applyDecorators allowUnsafe s = (Inr (), s')"
  shows "\<exists>entry r.
           map_of (stories s') (arg_id a) = Some entry \<and> getDecorated entry = Some r
         \<and> decorators_for s a
             = (case arg_decorators a of None \<Rightarrow> [] | Some d \<Rightarrow> d)
               @ (case map_of (kinds s) (arg_kind a) of None \<Rightarrow> [] | Some m \<Rightarrow> kind_decorators m)
               @ global_decorators (globalMetadata s)
         \<and> (\<exists>m. memos s' r = Some m \<and> memo_cache m = None \<and> memo_calls m = [])
         \<and> (\<forall>ops. \<exists>m. memos (run env ops s') r = Some m
               \<and> (memo_calls m = []
                  \<or> memo_calls m = [(FinalStoryFn (arg_storyFn a), decorators_for s a)]))
         \<and> (\<forall>ops. fst (getDecorated_call r (run env ops s'))
                    = Inr (applyDecorators (FinalStoryFn (arg_storyFn a)) (decorators_for s a)))
         \<and> (\<forall>ops. \<exists>m. memos (snd (getDecorated_call r (run env ops s'))) r = Some m
               \<and> memo_calls m = [(FinalStoryFn (arg_storyFn a), decorators_for s a)])"
proof -
  define r where "r = heap_next s"
  define fn where "fn = FinalStoryFn (arg_storyFn a)"
  from addStory_success [OF assms] obtain args where
    s': "s' = (allocated s a applyDecorators)
       \<lparr> stories := AList.update (arg_id a) (registered_entry a (heap_next s) args) (stories s) \<rparr>"
    by blast
  have entry: "map_of (stories s') (arg_id a) = Some (registered_entry a r args)"
    by (simp add: s' r_def update_conv')
  have decorated: "getDecorated (registered_entry a r args) = Some r"
    by (simp add: registered_entry_def)
  have cell: "memos s' r = Some (registered_memo s a applyDecorators)"
    by (simp add: s' r_def)
  have fresh: "memo_cache (registered_memo s a applyDecorators) = None"
    "memo_calls (registered_memo s a applyDecorators) = []"
    by (simp_all add: registered_memo_def)
  have state: "memo_state fn (decorators_for s a) applyDecorators
                 (registered_memo s a applyDecorators)"
    by (simp add: memo_state_def registered_memo_def fn_def)
  have below: "r < heap_next s'"
    by (simp add: s' r_def)
  have later: "\<exists>m. memos (run env ops s') r = Some m
      \<and> memo_state fn (decorators_for s a) applyDecorators m" for ops
    using memo_run [OF below cell state] .
  have calls: "\<exists>m. memos (run env ops s') r = Some m
      \<and> (memo_calls m = [] \<or> memo_calls m = [(fn, decorators_for s a)])" for ops
    using later [of ops] by (auto simp: memo_state_def)
  have returns: "fst (getDecorated_call r (run env ops s'))
      = Inr (applyDecorators fn (decorators_for s a))" for ops
    using later [of ops] getDecorated_call_memo by blast
  have once: "\<exists>m. memos (snd (getDecorated_call r (run env ops s'))) r = Some m
      \<and> memo_calls m = [(fn, decorators_for s a)]" for ops
    using later [of ops] getDecorated_call_memo by blast
  show ?thesis
  proof (intro exI [of _ "registered_entry a r args"] exI [of _ r] conjI allI)
    show "\<exists>m. memos s' r = Some m \<and> memo_cache m = None \<and> memo_calls m = []"
      using cell fresh by blast
  qed (use entry decorated calls returns once in \<open>simp_all add: fn_def decorators_for_def\<close>)
qed

lemma decorated_base_eq:
  "kinds decorated_base = [(''a'', \<lparr> kind_order = 0, kind_parameters = [], kind_decorators = [2] \<rparr>)]
   \<and> globalMetadata decorated_base = \<lparr> global_parameters = [], global_decorators = [3] \<rparr>
   \<and> stories decorated_base = [] \<and> configuring decorated_base \<and> heap_next decorated_base = 0
   \<and> parameterEnhancers decorated_base = []"
  by (simp add: decorated_base_def md_decorators_only_def addKindMetadata_def
      addGlobalMetadata_def ensureKind_def new_store_def combineParameters_def Let_def)

lemma decorated_store_added:
  "addStory story_decorated compose_pair False decorated_base = (Inr (), decorated_store)"
  by (simp add: decorated_store_def prod_eq_iff decorated_base_eq story_decorated_def
      addStory_def ensureKind_def combineParameters_def pick_def obj_get_def or_default_def
      defaults_of_def obj_assign_def spread_props_def Let_def)

theorem decorators_composed_once_witness:
  "addStory story_decorated compose_pair False decorated_base = (Inr (), decorated_store)
   \<and> decorators_for decorated_base story_decorated = [1, 2, 3]
   \<and> (\<exists>entry r.
         map_of (stories decorated_store) ''a--b'' = Some entry \<and> getDecorated entry = Some r
       \<and> (\<exists>m. memos decorated_store r = Some m \<and> memo_cache m = None \<and> memo_calls m = [])
       \<and> fst (getDecorated_call r
                 (run plain_env [GetDecorated r, CallStoryFn (storyFn entry) []] decorated_store))
           = Inr (FinalStoryFn 0, [1, 2, 3])
       \<and> (\<exists>m. memos (snd (getDecorated_call r
                 (run plain_env [GetDecorated r, CallStoryFn (storyFn entry) []] decorated_store))) r
                 = Some m
             \<and> memo_calls m = [(FinalStoryFn 0, [1, 2, 3])]))"
proof -
  have decs: "decorators_for decorated_base story_decorated = [1, 2, 3]"
    by (simp add: decorators_for_def decorated_base_eq story_decorated_def)
  from decorators_composed_once [OF decorated_store_added, of plain_env]
  obtain entry r where e:
    "map_of (stories decorated_store) (arg_id story_decorated) = Some entry"
    "getDecorated entry = Some r"
    "\<exists>m. memos decorated_store r = Some m \<and> memo_cache m = None \<and> memo_calls m = []"
    "\<forall>ops. fst (getDecorated_call r (run plain_env ops decorated_store))
        = Inr (compose_pair (FinalStoryFn (arg_storyFn story_decorated))
                 (decorators_for decorated_base story_decorated))"
    "\<forall>ops. \<exists>m. memos (snd (getDecorated_call r (run plain_env ops decorated_store))) r = Some m
        \<and> memo_calls m = [(FinalStoryFn (arg_storyFn story_decorated),
                            decorators_for decorated_base story_decorated)]"
    by blast
  have e1: "map_of (stories decorated_store) ''a--b'' = Some entry"
    using e(1) by (simp add: story_decorated_def)
  have e4: "fst (getDecorated_call r
                 (run plain_env [GetDecorated r, CallStoryFn (storyFn entry) []] decorated_store))
           = Inr (FinalStoryFn 0, [1, 2, 3])"
    using e(4) [rule_format, of "[GetDecorated r, CallStoryFn (storyFn entry) []]"] decs
    by (simp only: compose_pair_def story_decorated_def AddStoryArgs.simps)
  have e5: "\<exists>m. memos (snd (getDecorated_call r
                 (run plain_env [GetDecorated r, CallStoryFn (storyFn entry) []] decorated_store))) r
                 = Some m
             \<and> memo_calls m = [(FinalStoryFn 0, [1, 2, 3])]"
    using e(5) [rule_format, of "[GetDecorated r, CallStoryFn (storyFn entry) []]"] decs
    by (simp only: story_decorated_def AddStoryArgs.simps)
  show ?thesis
    by (intro conjI exI [of _ entry] exI [of _ r])
       (rule decorated_store_added decs e1 e(2) e(3) e4 e5)+
qed

section \<open>Overwriting an entry\<close>

lemma leak_step:
  assumes g: "grows s s'" and below: "h < heap_next s"
      and free: "h \<notin> (\<lambda>e. hooks (snd e)) ` set (stories s)"
  shows "h < heap_next s' \<and> h \<notin> (\<lambda>e. hooks (snd e)) ` set (stories s')
       \<and> count_list (cleaned s') h = count_list (cleaned s) h"
proof (intro conjI)
  show "h < heap_next s'"
    using g below by (simp add: grows_def)
  show "h \<notin> (\<lambda>e. hooks (snd e)) ` set (stories s')"
  proof
    assume "h \<in> (\<lambda>e. hooks (snd e)) ` set (stories s')"
    then obtain e where e: "e \<in> set (stories s')" "h = hooks (snd e)" by auto
    have "e \<in> set (stories s) \<or> hooks (snd e) = heap_next s"
      using g e(1) unfolding grows_def by blast
    then show False
      using e(2) free below by auto
  qed
  obtain released where released: "cleaned s' = cleaned s @ released"
    "set released \<subseteq> (\<lambda>e. hooks (snd e)) ` set (stories s)"
    using g unfolding grows_def by blast
  have "h \<notin> set released"
    using released(2) free by auto
  then have "count_list released h = 0"
    by (simp add: count_list_0_iff)
  then show "count_list (cleaned s') h = count_list (cleaned s) h"
    using released(1) by simp
qed

lemma leak_run:
  assumes "h < heap_next s" and "h \<notin> (\<lambda>e. hooks (snd e)) ` set (stories s)"
  shows "count_list (cleaned (run env ops s)) h = count_list (cleaned s) h"
  using assms
proof (induction ops arbitrary: s)
  case Nil
  show ?case by simp
next
  case (Cons op ops)
  from leak_step [OF grows_exec Cons.prems, of env op]
  have step: "h < heap_next (exec env op s)"
    "h \<notin> (\<lambda>e. hooks (snd e)) ` set (stories (exec env op s))"
    "count_list (cleaned (exec env op s)) h = count_list (cleaned s) h"
    by simp_all
  show ?case
    using Cons.IH [OF step(1,2)] step(3) by simp
qed

lemma set_update_distinct:
  assumes "distinct (map fst al)" and "e \<in> set (AList.update k v al)"
  shows "e = (k, v) \<or> (e \<in> set al \<and> fst e \<noteq> k)"
  using assms
proof (induction al)
  case Nil
  then show ?case by simp
next
  case (Cons x al)
  obtain k' v' where x: "x = (k', v')" by (cases x)
  show ?case
  proof (cases "k' = k")
    case True
    then show ?thesis using Cons.prems x by (auto simp: image_iff)
  next
    case False
    then show ?thesis using Cons.IH Cons.prems x by auto
  qed
qed

text \<open>
  C10. \<^verbatim>\<open>addStory\<close> is called with an id that is in the table. The entry under that id is
  replaced by the new one, whose \<^verbatim>\<open>HooksContext\<close> is a new object; the call does not clean the
  hooks of the entry it replaces; no entry of the table holds them any more, and whatever the
  client does afterwards, the removals included, their \<^verbatim>\<open>clean\<close> is never called.
\<close>

theorem overwrite_leaks_hooks:
  assumes inv: "store_inv s"
      and old: "map_of (stories s) (arg_id a) = Some old"
      and add: "addStory a applyDecorators allowUnsafe s = (Inr (), s')"
  shows "\<exists>new. map_of (stories s') (arg_id a) = Some new
           \<and> item_id new = arg_id a \<and> getOriginal new = arg_storyFn a
           \<and> hooks new = heap_next s \<and> hooks new \<noteq> hooks old
           \<and> hooks new \<notin> (\<lambda>e. hooks (snd e)) ` set (stories s)
           \<and> cleaned s' = cleaned s
           \<and> hooks old \<notin> (\<lambda>e. hooks (snd e)) ` set (stories s')
           \<and> (\<forall>ops. count_list (cleaned (run env ops s')) (hooks old)
                      = count_list (cleaned s) (hooks old))"
proof -
  from addStory_success [OF add] obtain args where
    s': "s' = (allocated s a applyDecorators)
       \<lparr> stories := AList.update (arg_id a) (registered_entry a (heap_next s) args) (stories s) \<rparr>"
    by blast
  define new where "new = registered_entry a (heap_next s) args"
  have d: "distinct (map fst (stories s))"
    and ok: "\<And>e. e \<in> set (stories s) \<Longrightarrow> entry_ok s e"
    and dh: "distinct (map (\<lambda>e. hooks (snd e)) (stories s))"
    using inv by (auto simp: store_inv_def list_all_iff)
  have old_in: "(arg_id a, old) \<in> set (stories s)"
    using old by (rule map_of_SomeD)
  have old_below: "hooks old < heap_next s"
    using ok [OF old_in] by (simp add: entry_ok_def)
  have new_hooks: "hooks new = heap_next s"
    by (simp add: new_def registered_entry_def)
  have new_fresh: "hooks new \<notin> (\<lambda>e. hooks (snd e)) ` set (stories s)"
  proof
    assume "hooks new \<in> (\<lambda>e. hooks (snd e)) ` set (stories s)"
    then obtain e where e: "e \<in> set (stories s)" "hooks new = hooks (snd e)" by auto
    have "hooks (snd e) < heap_next s"
      using ok [OF e(1)] by (simp add: entry_ok_def)
    then show False using e(2) new_hooks by simp
  qed
  have inj: "inj_on (\<lambda>e. hooks (snd e)) (set (stories s))"
    using dh by (simp add: distinct_map)
  have gone: "hooks old \<notin> (\<lambda>e. hooks (snd e)) ` set (stories s')"
  proof
    assume "hooks old \<in> (\<lambda>e. hooks (snd e)) ` set (stories s')"
    then obtain e where e: "e \<in> set (AList.update (arg_id a) new (stories s))"
      "hooks old = hooks (snd e)"
      by (auto simp: s' new_def)
    from set_update_distinct [OF d e(1)]
    show False
    proof
      assume "e = (arg_id a, new)"
      then show False using e(2) new_hooks old_below by simp
    next
      assume rest: "e \<in> set (stories s) \<and> fst e \<noteq> arg_id a"
      have "hooks (snd e) = hooks (snd (arg_id a, old))"
        using e(2) by simp
      with rest old_in have "e = (arg_id a, old)"
        using inj_onD [OF inj, of e "(arg_id a, old)"] by blast
      then show False using rest by simp
    qed
  qed
  have below: "hooks old < heap_next s'"
    using old_below by (simp add: s')
  have same: "cleaned s' = cleaned s"
    by (simp add: s')
  have never: "count_list (cleaned (run env ops s')) (hooks old)
      = count_list (cleaned s) (hooks old)" for ops
    using leak_run [OF below gone, of env ops] same by simp
  show ?thesis
  proof (intro exI [of _ new] conjI allI)
    show "map_of (stories s') (arg_id a) = Some new"
      by (simp add: s' new_def update_conv')
    show "item_id new = arg_id a" "getOriginal new = arg_storyFn a"
      by (simp_all add: new_def registered_entry_def)
    show "hooks new \<noteq> hooks old"
      using new_hooks old_below by simp
  qed (use new_hooks new_fresh same gone never in simp_all)
qed

lemma overwrite_base_eq:
  "stories overwrite_base = [(''a--b'', plain_entry 0)]
   \<and> kinds overwrite_base
     = [(''a'', \<lparr> kind_order = 0, kind_parameters = [], kind_decorators = [] \<rparr>)]
   \<and> configuring overwrite_base \<and> parameterEnhancers overwrite_base = []
   \<and> globalMetadata overwrite_base = \<lparr> global_parameters = [], global_decorators = [] \<rparr>
   \<and> heap_next overwrite_base = 1 \<and> cleaned overwrite_base = []"
  by (simp add: overwrite_base_def plain_entry_def registration_defs)

lemma overwritten_store_added:
  "addStory story_plain compose_pair False overwrite_base = (Inr (), overwritten_store)"
  by (simp add: overwritten_store_def prod_eq_iff overwrite_base_eq story_plain_def
      story_with_def addStory_def ensureKind_def combineParameters_def pick_def obj_get_def
      or_default_def defaults_of_def obj_assign_def spread_props_def Let_def)

lemma overwrite_base_inv: "store_inv overwrite_base"
  unfolding overwrite_base_def
  using inv_exec [of _ plain_env "AddStory a compose_pair False" for a] inv_new_store [of False]
  by (metis exec.simps(1))

theorem overwrite_leaks_hooks_witness:
  "store_inv overwrite_base
   \<and> map_of (stories overwrite_base) ''a--b'' = Some (plain_entry 0)
   \<and> addStory story_plain compose_pair False overwrite_base = (Inr (), overwritten_store)
   \<and> (\<exists>new. map_of (stories overwritten_store) ''a--b'' = Some new
         \<and> hooks new = 1 \<and> hooks new \<noteq> 0
         \<and> cleaned overwritten_store = []
         \<and> count_list (cleaned (run plain_env
               [Remove ''a--b'' False, RemoveStoryKind ''a'' False] overwritten_store)) 0 = 0)"
proof -
  have old: "map_of (stories overwrite_base) (arg_id story_plain) = Some (plain_entry 0)"
    by (simp add: overwrite_base_eq story_plain_def story_with_def)
  from overwrite_leaks_hooks [OF overwrite_base_inv old overwritten_store_added, of plain_env]
  obtain new where n:
    "map_of (stories overwritten_store) (arg_id story_plain) = Some new"
    "hooks new = heap_next overwrite_base" "hooks new \<noteq> hooks (plain_entry 0)"
    "cleaned overwritten_store = cleaned overwrite_base"
    "\<forall>ops. count_list (cleaned (run plain_env ops overwritten_store)) (hooks (plain_entry 0))
        = count_list (cleaned overwrite_base) (hooks (plain_entry 0))"
    by blast
  have h0: "hooks (plain_entry 0) = 0"
    by (simp add: plain_entry_def)
  have w1: "map_of (stories overwrite_base) ''a--b'' = Some (plain_entry 0)"
    using old by (simp add: story_plain_def story_with_def)
  have w2: "map_of (stories overwritten_store) ''a--b'' = Some new"
    using n(1) by (simp add: story_plain_def story_with_def)
  have w3: "hooks new = 1"
    using n(2) by (simp add: overwrite_base_eq)
  have w4: "hooks new \<noteq> 0"
    using n(3) h0 by simp
  have w5: "cleaned overwritten_store = []"
    using n(4) by (simp add: overwrite_base_eq)
  have "count_list (cleaned (run plain_env
               [Remove ''a--b'' False, RemoveStoryKind ''a'' False] overwritten_store))
          (hooks (plain_entry 0))
        = count_list (cleaned overwrite_base) (hooks (plain_entry 0))"
    using n(5) by (rule spec)
  then have w6: "count_list (cleaned (run plain_env
               [Remove ''a--b'' False, RemoveStoryKind ''a'' False] overwritten_store)) 0 = 0"
    by (simp only: h0 overwrite_base_eq count_list.simps)
  show ?thesis
    by (intro conjI exI [of _ new])
       (rule overwrite_base_inv w1 overwritten_store_added w2 w3 w4 w5 w6)+
qed

section \<open>What removing a kind releases\<close>

text \<open>
  The whole effect of \<^verbatim>\<open>removeStoryKind\<close> on a store that satisfies the invariant, for a kind
  that is registered: the metadata of the kind is reset, the handles of the stories of the kind
  that \<^verbatim>\<open>raw()\<close> lists are released, each once and in insertion order, and all the stories of
  the kind leave the table.
\<close>

lemma fold_cleanHooks_entries:
  assumes "\<And>i. i \<in> set found \<Longrightarrow> map_of (stories s) (item_id i) = Some i"
  shows "fold (\<lambda>story. cleanHooks (item_id (pub_item story)))
           (map (\<lambda>i. \<lparr> pub_item = i, pub_globalArgs = g \<rparr>) found) s
         = s\<lparr> cleaned := cleaned s @ map hooks found \<rparr>"
  using assms
proof (induction found arbitrary: s)
  case Nil
  show ?case by simp
next
  case (Cons i found)
  have step: "cleanHooks (item_id i) s = s\<lparr> cleaned := cleaned s @ [hooks i] \<rparr>"
    using Cons.prems [of i] by (simp add: cleanHooks_def)
  have "fold (\<lambda>story. cleanHooks (item_id (pub_item story)))
           (map (\<lambda>i. \<lparr> pub_item = i, pub_globalArgs = g \<rparr>) found)
           (s\<lparr> cleaned := cleaned s @ [hooks i] \<rparr>)
        = (s\<lparr> cleaned := cleaned s @ [hooks i] \<rparr>)
            \<lparr> cleaned := cleaned (s\<lparr> cleaned := cleaned s @ [hooks i] \<rparr>) @ map hooks found \<rparr>"
    by (rule Cons.IH) (use Cons.prems in simp)
  then show ?case
    using step by simp
qed

lemma removeStoryKind_effect:
  assumes inv: "store_inv s" and permitted: "configuring s \<or> u"
      and known: "map_of (kinds s) kind \<noteq> None"
  shows "removeStoryKind kind u s
         = (Inr (),
            s\<lparr> kinds := AList.map_entry kind
                           (\<lambda>m. m\<lparr> kind_parameters := [], kind_decorators := [] \<rparr>) (kinds s),
                cleaned := cleaned s
                  @ map hooks
                      (filter (\<lambda>i. item_kind i = kind)
                         (filter (\<lambda>i. includeStory i None)
                            (filter (\<lambda>i. getDecorated i \<noteq> None) (map snd (stories s))))),
                stories := filter (\<lambda>(k, v). item_kind v \<noteq> kind) (stories s) \<rparr>)"
proof -
  define s1 where "s1 = s\<lparr> kinds := AList.map_entry kind
      (\<lambda>m. m\<lparr> kind_parameters := [], kind_decorators := [] \<rparr>) (kinds s) \<rparr>"
  define found where "found =
    filter (\<lambda>i. item_kind i = kind)
      (filter (\<lambda>i. includeStory i None)
         (filter (\<lambda>i. getDecorated i \<noteq> None) (map snd (stories s))))"
  have guard: "\<not> (\<not> configuring s \<and> \<not> u)" using permitted by simp
  have d: "distinct (map fst (stories s))"
    using inv by (simp add: store_inv_def)
  have same_kinds: "unknown_kind s1 k = unknown_kind s k" for k
    using map_entry_order [where f = "\<lambda>m. m\<lparr> kind_parameters := [], kind_decorators := [] \<rparr>"
        and s = s and k = kind and k' = k]
    by (simp add: s1_def)
  have inv1: "store_inv s1"
    using inv same_kinds
    by (simp add: store_inv_def entry_ok_def list_all_iff) (simp add: s1_def)
  define shown where "shown =
    filter (\<lambda>i. includeStory i None)
      (filter (\<lambda>i. getDecorated i \<noteq> None) (map snd (stories s)))"
  define publish where "publish = (\<lambda>i. \<lparr> pub_item = i, pub_globalArgs = globalArgs s \<rparr>)"
  have raw1: "raw s1 None = Inr (map Some (map publish shown))"
    using raw_inv [OF inv1, of None] by (simp add: s1_def comp_def shown_def publish_def)
  have "filter (\<lambda>p. item_kind (pub_item p) = kind) (map publish shown) = map publish found"
    by (simp add: filter_map comp_def found_def shown_def publish_def)
  then have for_kind: "getStoriesForKind s1 kind = Inr (map publish found)"
    unfolding getStoriesForKind_def raw1 by (simp only: filter_kind_Some sum.case)
  have lookup: "map_of (stories s1) (item_id i) = Some i" if mem: "i \<in> set found" for i
  proof -
    obtain e where e: "e \<in> set (stories s)" "i = snd e"
      using mem by (auto simp: found_def)
    have "item_id i = fst e"
      using inv_entry [OF inv e(1)] e(2) by (simp add: entry_ok_def)
    then show ?thesis
      using inv_lookup [OF inv e(1)] e(2) by (simp add: s1_def)
  qed
  have clean: "cleanHooksForKind kind s1
      = (Inr (), s1\<lparr> cleaned := cleaned s1 @ map hooks found \<rparr>)"
    using for_kind fold_cleanHooks_entries [of found s1 "globalArgs s"] lookup
    by (simp add: cleanHooksForKind_def publish_def)
  have kept: "fold (\<lambda>(storyId, story) acc.
                 if item_kind story \<noteq> kind then AList.update storyId story acc else acc)
               (stories s) []
      = filter (\<lambda>(k, v). item_kind v \<noteq> kind) (stories s)"
    by (rule fold_keep_filter [OF d])
  show ?thesis
    unfolding removeStoryKind_def Let_def if_not_P [OF guard] if_not_P [OF known]
    using clean kept by (simp add: s1_def found_def)
qed

end
